theory Spec2Isabelle
  imports Main "HOL-Library.Word" "HOL-Library.Char_ord" "HOL-Library.List_Lexorder"
begin

unbundle bit_operations_syntax

section \<open>Errors (exceptions.hpp) and foreign enumerations (ffi.hpp)\<close>

text \<open>
  The exception classes of exceptions.hpp, each carrying the message it was built from,
  together with the two standard exceptions the RAII wrappers of managed_value.hpp throw
  (\<open>std::invalid_argument\<close>, \<open>std::out_of_range\<close>).  \<open>UndefinedRead\<close> is no
  exception: it marks a read of memory that C++ gives no meaning to.
\<close>

datatype error =
    ParseError string
  | ValidationError string
  | IoError string
  | SerialiseError string
  | InvalidArgument string
  | OutOfRange string
  | UndefinedRead string

datatype GblnErrorCode =
    Ok
  | ErrorUnexpectedChar
  | ErrorUnterminatedString
  | ErrorUnexpectedToken
  | ErrorUnexpectedEof
  | ErrorInvalidSyntax
  | ErrorIntOutOfRange
  | ErrorStringTooLong
  | ErrorTypeMismatch
  | ErrorInvalidTypeHint
  | ErrorDuplicateKey
  | ErrorNullPointer
  | ErrorIo

datatype GblnValueType =
    I8 | I16 | I32 | I64
  | U8 | U16 | U32 | U64
  | F32 | F64
  | Str | Bool | Null
  | Object | Array

section \<open>The value model (value.hpp)\<close>

text \<open>
  \<open>ValueData\<close> is a variant over seven alternatives.  The integer lane is
  \<open>std::int64_t\<close>; a \<open>double\<close> is kept as its 64-bit pattern, since no operation of
  the bindings computes with it.  A \<open>std::map<std::string, Value>\<close> is the list of its
  entries in iteration order.
\<close>

datatype Value =
    VNull
  | VBool bool
  | VInt "64 word"
  | VFloat "64 word"
  | VString string
  | VObject "(string \<times> Value) list"
  | VArray "Value list"

section \<open>The foreign engine behind ffi.hpp\<close>

text \<open>
  Modelled from the spec: ffi.hpp declares \<open>GblnValue\<close> and \<open>GblnConfig\<close> as opaque
  structs and the engine's functions without bodies.  A foreign value is one of the
  fifteen tags of \<open>GblnValueType\<close> with its payload; a string carries the capacity
  \<open>max_len\<close> it was created with; an object keeps its entries in insertion order.
\<close>

datatype GblnValue =
    FI8 "8 word" | FI16 "16 word" | FI32 "32 word" | FI64 "64 word"
  | FU8 "8 word" | FU16 "16 word" | FU32 "32 word" | FU64 "64 word"
  | FF32 "32 word" | FF64 "64 word"
  | FStr string nat
  | FBool bool
  | FNull
  | FObject "(string \<times> GblnValue) list"
  | FArray "GblnValue list"

record GblnConfig =
  cfg_mini_mode :: bool
  cfg_compress :: bool
  cfg_compression_level :: "8 word"
  cfg_indent :: nat
  cfg_strip_comments :: bool

text \<open>
  A pointer is an address or null (\<open>None\<close>).  The engine owns a store of live resources:
  value trees (a container owns the children inserted into it), strings, key lists and
  configurations.  Addresses are handed out in increasing order and never reused, so the
  list \<open>released\<close> of freed addresses tells how often each one was freed.
\<close>

type_synonym ptr = "nat option"

datatype resource =
    ResValue GblnValue
  | ResString string
  | ResKeys "string list"
  | ResConfig GblnConfig

text \<open>
  Whether a fallible foreign call succeeds is not decided by the bindings.  The state
  carries a \<open>script\<close> of replies, one consumed by each fallible call: \<open>Ok\<close> lets the call
  proceed, any other code makes it fail and records the given last-error message.  The
  empty script is the engine that never fails on its own.
\<close>

type_synonym reply = "GblnErrorCode \<times> string option"

record ffi_state =
  store :: "nat \<rightharpoonup> resource"
  next_addr :: nat
  released :: "nat list"
  last_error :: "string option"
  script :: "reply list"
  written :: "(string \<times> GblnValue \<times> GblnConfig) list"

definition init_state :: ffi_state where
  "init_state = \<lparr>store = Map.empty, next_addr = 1, released = [], last_error = None,
     script = [], written = []\<rparr>"

definition next_reply :: "ffi_state \<Rightarrow> GblnErrorCode \<times> ffi_state" where
  "next_reply s =
     (case script s of
        [] \<Rightarrow> (Ok, s)
      | (code, msg) # rest \<Rightarrow>
          (code, if code = Ok then s\<lparr>script := rest\<rparr>
                 else s\<lparr>script := rest, last_error := msg\<rparr>))"

definition alloc :: "resource \<Rightarrow> ffi_state \<Rightarrow> ptr \<times> ffi_state" where
  "alloc r s =
     (Some (next_addr s),
      s\<lparr>store := (store s)(next_addr s \<mapsto> r), next_addr := Suc (next_addr s)\<rparr>)"

definition release :: "ptr \<Rightarrow> ffi_state \<Rightarrow> ffi_state" where
  "release p s =
     (case p of
        None \<Rightarrow> s
      | Some a \<Rightarrow> s\<lparr>store := (store s)(a := None), released := released s @ [a]\<rparr>)"

definition live :: "ffi_state \<Rightarrow> nat set" where
  "live s = dom (store s)"

definition value_at :: "ffi_state \<Rightarrow> ptr \<Rightarrow> GblnValue option" where
  "value_at s p =
     (case p of
        None \<Rightarrow> None
      | Some a \<Rightarrow> (case store s a of Some (ResValue v) \<Rightarrow> Some v | _ \<Rightarrow> None))"

subsection \<open>Memory management\<close>

definition gbln_value_free :: "ptr \<Rightarrow> ffi_state \<Rightarrow> ffi_state" where
  "gbln_value_free p s = release p s"

definition gbln_string_free :: "ptr \<Rightarrow> ffi_state \<Rightarrow> ffi_state" where
  "gbln_string_free p s = release p s"

definition gbln_keys_free :: "ptr \<Rightarrow> nat \<Rightarrow> ffi_state \<Rightarrow> ffi_state" where
  "gbln_keys_free keys count s = release keys s"

definition gbln_config_free :: "ptr \<Rightarrow> ffi_state \<Rightarrow> ffi_state" where
  "gbln_config_free p s = release p s"

subsection \<open>Value construction\<close>

text \<open>A constructor returns a fresh handle, or null when the engine fails.\<close>

definition new_value :: "GblnValue \<Rightarrow> ffi_state \<Rightarrow> ptr \<times> ffi_state" where
  "new_value v s =
     (case next_reply s of
        (code, s1) \<Rightarrow> if code = Ok then alloc (ResValue v) s1 else (None, s1))"

definition gbln_value_new_i8 :: "8 word \<Rightarrow> ffi_state \<Rightarrow> ptr \<times> ffi_state" where
  "gbln_value_new_i8 v = new_value (FI8 v)"

definition gbln_value_new_i16 :: "16 word \<Rightarrow> ffi_state \<Rightarrow> ptr \<times> ffi_state" where
  "gbln_value_new_i16 v = new_value (FI16 v)"

definition gbln_value_new_i32 :: "32 word \<Rightarrow> ffi_state \<Rightarrow> ptr \<times> ffi_state" where
  "gbln_value_new_i32 v = new_value (FI32 v)"

definition gbln_value_new_i64 :: "64 word \<Rightarrow> ffi_state \<Rightarrow> ptr \<times> ffi_state" where
  "gbln_value_new_i64 v = new_value (FI64 v)"

definition gbln_value_new_u8 :: "8 word \<Rightarrow> ffi_state \<Rightarrow> ptr \<times> ffi_state" where
  "gbln_value_new_u8 v = new_value (FU8 v)"

definition gbln_value_new_u16 :: "16 word \<Rightarrow> ffi_state \<Rightarrow> ptr \<times> ffi_state" where
  "gbln_value_new_u16 v = new_value (FU16 v)"

definition gbln_value_new_u32 :: "32 word \<Rightarrow> ffi_state \<Rightarrow> ptr \<times> ffi_state" where
  "gbln_value_new_u32 v = new_value (FU32 v)"

definition gbln_value_new_u64 :: "64 word \<Rightarrow> ffi_state \<Rightarrow> ptr \<times> ffi_state" where
  "gbln_value_new_u64 v = new_value (FU64 v)"

definition gbln_value_new_f64 :: "64 word \<Rightarrow> ffi_state \<Rightarrow> ptr \<times> ffi_state" where
  "gbln_value_new_f64 v = new_value (FF64 v)"

definition gbln_value_new_str :: "string \<Rightarrow> nat \<Rightarrow> ffi_state \<Rightarrow> ptr \<times> ffi_state" where
  "gbln_value_new_str v max_len = new_value (FStr v max_len)"

definition gbln_value_new_bool :: "bool \<Rightarrow> ffi_state \<Rightarrow> ptr \<times> ffi_state" where
  "gbln_value_new_bool v = new_value (FBool v)"

definition gbln_value_new_null :: "ffi_state \<Rightarrow> ptr \<times> ffi_state" where
  "gbln_value_new_null = new_value FNull"

definition gbln_value_new_object :: "ffi_state \<Rightarrow> ptr \<times> ffi_state" where
  "gbln_value_new_object = new_value (FObject [])"

definition gbln_value_new_array :: "ffi_state \<Rightarrow> ptr \<times> ffi_state" where
  "gbln_value_new_array = new_value (FArray [])"

subsection \<open>Type introspection\<close>

fun gbln_value_type :: "GblnValue \<Rightarrow> GblnValueType" where
  "gbln_value_type (FI8 _) = I8"
| "gbln_value_type (FI16 _) = I16"
| "gbln_value_type (FI32 _) = I32"
| "gbln_value_type (FI64 _) = I64"
| "gbln_value_type (FU8 _) = U8"
| "gbln_value_type (FU16 _) = U16"
| "gbln_value_type (FU32 _) = U32"
| "gbln_value_type (FU64 _) = U64"
| "gbln_value_type (FF32 _) = F32"
| "gbln_value_type (FF64 _) = F64"
| "gbln_value_type (FStr _ _) = Str"
| "gbln_value_type (FBool _) = Bool"
| "gbln_value_type FNull = Null"
| "gbln_value_type (FObject _) = Object"
| "gbln_value_type (FArray _) = Array"

section \<open>Automatic type selection (conversion.cpp)\<close>

text \<open>
  \<open>create_optimal_int\<close>: the comparisons are between \<open>std::int64_t\<close> values (the
  limits are promoted), hence signed; each \<open>static_cast\<close> truncates to the target width.
\<close>

definition create_optimal_int :: "64 word \<Rightarrow> ffi_state \<Rightarrow> ptr \<times> ffi_state" where
  "create_optimal_int v s =
     (if 0 \<le>s v then
        (if v \<le>s 255 then gbln_value_new_u8 (ucast v) s
         else if v \<le>s 65535 then gbln_value_new_u16 (ucast v) s
         else if v \<le>s 4294967295 then gbln_value_new_u32 (ucast v) s
         else gbln_value_new_u64 (ucast v) s)
      else if - 128 \<le>s v \<and> v \<le>s 127 then gbln_value_new_i8 (ucast v) s
      else if - 32768 \<le>s v \<and> v \<le>s 32767 then gbln_value_new_i16 (ucast v) s
      else if - 2147483648 \<le>s v \<and> v \<le>s 2147483647 then gbln_value_new_i32 (ucast v) s
      else gbln_value_new_i64 v s)"

text \<open>The integer a foreign integer value denotes, and the range of each integer tag.\<close>

fun int_value :: "GblnValue \<Rightarrow> int option" where
  "int_value (FI8 w) = Some (sint w)"
| "int_value (FI16 w) = Some (sint w)"
| "int_value (FI32 w) = Some (sint w)"
| "int_value (FI64 w) = Some (sint w)"
| "int_value (FU8 w) = Some (uint w)"
| "int_value (FU16 w) = Some (uint w)"
| "int_value (FU32 w) = Some (uint w)"
| "int_value (FU64 w) = Some (uint w)"
| "int_value _ = None"

definition int_tags :: "GblnValueType list" where
  "int_tags = [I8, I16, I32, I64, U8, U16, U32, U64]"

fun tag_width :: "GblnValueType \<Rightarrow> nat" where
  "tag_width I8 = 8" | "tag_width I16 = 16" | "tag_width I32 = 32" | "tag_width I64 = 64"
| "tag_width U8 = 8" | "tag_width U16 = 16" | "tag_width U32 = 32" | "tag_width U64 = 64"
| "tag_width F32 = 32" | "tag_width F64 = 64"
| "tag_width _ = 0"

definition is_unsigned :: "GblnValueType \<Rightarrow> bool" where
  "is_unsigned t = (t = U8 \<or> t = U16 \<or> t = U32 \<or> t = U64)"

definition is_signed :: "GblnValueType \<Rightarrow> bool" where
  "is_signed t = (t = I8 \<or> t = I16 \<or> t = I32 \<or> t = I64)"

definition represents :: "GblnValueType \<Rightarrow> int \<Rightarrow> bool" where
  "represents t n =
     (if is_unsigned t then 0 \<le> n \<and> n < 2 ^ tag_width t
      else is_signed t \<and> - (2 ^ (tag_width t - 1)) \<le> n \<and> n < 2 ^ (tag_width t - 1))"

subsection \<open>Strings\<close>

text \<open>
  A \<open>std::string\<close> is a sequence of bytes that may contain zero bytes;
  \<open>c_str()\<close> handed to a function taking \<open>const char*\<close> is read up to the first zero
  byte.  \<open>std::to_string\<close> prints in decimal.
\<close>

definition byte :: "char \<Rightarrow> 8 word" where
  "byte c = of_char c"

definition c_str :: "string \<Rightarrow> string" where
  "c_str str = takeWhile (\<lambda>c. c \<noteq> CHR 0x00) str"

text \<open>
  \<open>what()\<close> returns a \<open>const char*\<close> into the message the exception was built from,
  behind the prefix its class puts in front: it reads up to the first zero byte.
\<close>

fun what :: "error \<Rightarrow> string" where
  "what (ParseError m) = c_str (''Parse error: '' @ m)"
| "what (ValidationError m) = c_str (''Validation error: '' @ m)"
| "what (IoError m) = c_str (''I/O error: '' @ m)"
| "what (SerialiseError m) = c_str (''Serialise error: '' @ m)"
| "what (InvalidArgument m) = c_str m"
| "what (OutOfRange m) = c_str m"
| "what (UndefinedRead m) = c_str m"

function std_to_string :: "nat \<Rightarrow> string" where
  "std_to_string n =
     (if n < 10 then [''0123456789'' ! n]
      else std_to_string (n div 10) @ [''0123456789'' ! (n mod 10)])"
  by pat_completeness auto
termination
  by (relation "measure id") auto

declare std_to_string.simps [simp del]

definition std_to_string_int :: "int \<Rightarrow> string" where
  "std_to_string_int i =
     (if i < 0 then ''-'' @ std_to_string (nat (- i)) else std_to_string (nat i))"

text \<open>
  The counting loop of \<open>create_optimal_string\<close>, with its index \<open>i\<close> and its counter.
\<close>

function count_chars :: "string \<Rightarrow> nat \<Rightarrow> nat \<Rightarrow> error + nat" where
  "count_chars str i char_count =
     (if i < length str then
        (if byte (str ! i) < 0x80 then count_chars str (i + 1) (char_count + 1)
         else if byte (str ! i) AND 0xE0 = 0xC0 then count_chars str (i + 2) (char_count + 1)
         else if byte (str ! i) AND 0xF0 = 0xE0 then count_chars str (i + 3) (char_count + 1)
         else if byte (str ! i) AND 0xF8 = 0xF0 then count_chars str (i + 4) (char_count + 1)
         else Inl (SerialiseError ''Invalid UTF-8 sequence in string''))
      else Inr char_count)"
  by pat_completeness auto
termination
  by (relation "measure (\<lambda>(str, i, n). length str - i)") auto

declare count_chars.simps [simp del]

definition create_optimal_string :: "string \<Rightarrow> ffi_state \<Rightarrow> (error + ptr) \<times> ffi_state" where
  "create_optimal_string str s =
     (case count_chars str 0 0 of
        Inl e \<Rightarrow> (Inl e, s)
      | Inr char_count \<Rightarrow>
          (case (if char_count \<le> 2 then Inr 2
                 else if char_count \<le> 4 then Inr 4
                 else if char_count \<le> 8 then Inr 8
                 else if char_count \<le> 16 then Inr 16
                 else if char_count \<le> 32 then Inr 32
                 else if char_count \<le> 64 then Inr 64
                 else if char_count \<le> 128 then Inr 128
                 else if char_count \<le> 256 then Inr 256
                 else if char_count \<le> 512 then Inr 512
                 else if char_count \<le> 1024 then Inr 1024
                 else Inl (SerialiseError (''String too long ('' @ std_to_string char_count
                        @ '' characters, max 1024)''))) of
             Inl e \<Rightarrow> (Inl e, s)
           | Inr max_len \<Rightarrow>
               (case gbln_value_new_str (c_str str) max_len s of (p, s') \<Rightarrow> (Inr p, s'))))"

text \<open>
  The capacity buckets of the string type, and the reading of the leading-byte patterns
  in the specification's words: top bit 0, \<open>110xxxxx\<close>, \<open>1110xxxx\<close>, \<open>11110xxx\<close>.
  \<open>lead_positions\<close> lists the indices the scan reaches in lead-byte position.
\<close>

definition buckets :: "nat list" where
  "buckets = [2, 4, 8, 16, 32, 64, 128, 256, 512, 1024]"

definition lead_len :: "8 word \<Rightarrow> nat option" where
  "lead_len c =
     (if \<not> bit c 7 then Some 1
      else if drop_bit 5 c = 6 then Some 2
      else if drop_bit 4 c = 14 then Some 3
      else if drop_bit 3 c = 30 then Some 4
      else None)"

function lead_positions :: "string \<Rightarrow> nat \<Rightarrow> nat list" where
  "lead_positions str i =
     (if i < length str then
        i # (case lead_len (byte (str ! i)) of
               None \<Rightarrow> []
             | Some k \<Rightarrow> lead_positions str (i + k))
      else [])"
  by pat_completeness auto
termination
proof (relation "measure (\<lambda>(str, i). length str - i)")
  show "wf (measure (\<lambda>(str, i). length str - i))"
    by simp
next
  fix str :: string and i k :: nat
  assume "i < length str" and "lead_len (byte (str ! i)) = Some k"
  then have "0 < k"
    by (auto simp add: lead_len_def split: if_splits)
  with \<open>i < length str\<close> show "((str, i + k), (str, i)) \<in> measure (\<lambda>(str, i). length str - i)"
    by simp
qed

declare lead_positions.simps [simp del]

section \<open>The foreign engine: containers, accessors, text and files (ffi.hpp)\<close>

subsection \<open>Containers\<close>

text \<open>
  Modelled from the spec: insert-by-key and push take ownership of the child on success
  only.  On success the child's tree becomes part of the container and the child's
  address stops being a resource of its own; on failure nothing changes.  A null
  argument, a handle that is not a live container of the right kind, and a key already
  present are refused with the codes of \<open>GblnErrorCode\<close>.
\<close>

definition gbln_object_insert :: "ptr \<Rightarrow> string \<Rightarrow> ptr \<Rightarrow> ffi_state \<Rightarrow> GblnErrorCode \<times> ffi_state" where
  "gbln_object_insert object key val s =
     (case next_reply s of
        (code, s1) \<Rightarrow>
          if code \<noteq> Ok then (code, s1)
          else (case (object, val) of
                  (Some o_addr, Some v_addr) \<Rightarrow>
                    (case (store s1 o_addr, store s1 v_addr) of
                       (Some (ResValue (FObject kvs)), Some (ResValue v)) \<Rightarrow>
                         if o_addr = v_addr then (ErrorTypeMismatch, s1)
                         else if key \<in> set (map fst kvs) then (ErrorDuplicateKey, s1)
                         else (Ok, s1\<lparr>store := (store s1)
                                  (o_addr \<mapsto> ResValue (FObject (kvs @ [(key, v)])),
                                   v_addr := None)\<rparr>)
                     | _ \<Rightarrow> (ErrorTypeMismatch, s1))
                | _ \<Rightarrow> (ErrorNullPointer, s1)))"

definition gbln_array_push :: "ptr \<Rightarrow> ptr \<Rightarrow> ffi_state \<Rightarrow> GblnErrorCode \<times> ffi_state" where
  "gbln_array_push array val s =
     (case next_reply s of
        (code, s1) \<Rightarrow>
          if code \<noteq> Ok then (code, s1)
          else (case (array, val) of
                  (Some a_addr, Some v_addr) \<Rightarrow>
                    (case (store s1 a_addr, store s1 v_addr) of
                       (Some (ResValue (FArray xs)), Some (ResValue v)) \<Rightarrow>
                         if a_addr = v_addr then (ErrorTypeMismatch, s1)
                         else (Ok, s1\<lparr>store := (store s1)
                                  (a_addr \<mapsto> ResValue (FArray (xs @ [v])),
                                   v_addr := None)\<rparr>)
                     | _ \<Rightarrow> (ErrorTypeMismatch, s1))
                | _ \<Rightarrow> (ErrorNullPointer, s1)))"

subsection \<open>Value extraction\<close>

text \<open>
  Modelled from the spec: the accessors read a borrowed \<open>const GblnValue*\<close>, which is
  the tree it points to; each returns its result and the flag written to \<open>ok\<close>.
  \<open>gbln_value_as_i64\<close> widens all eight integer tags; a \<open>U64\<close> beyond the signed
  range has no 64-bit signed value and reports failure.  A \<open>char*\<close> result is a C
  string: it ends before the first zero byte.
\<close>

definition accessor :: "'a option \<Rightarrow> 'a \<Rightarrow> ffi_state \<Rightarrow> ('a \<times> bool) \<times> ffi_state" where
  "accessor r dflt s =
     (case r of
        None \<Rightarrow> ((dflt, False), s)
      | Some x \<Rightarrow>
          (case next_reply s of
             (code, s1) \<Rightarrow> if code = Ok then ((x, True), s1) else ((dflt, False), s1)))"

fun as_i64 :: "GblnValue \<Rightarrow> 64 word option" where
  "as_i64 (FI8 w) = Some (scast w)"
| "as_i64 (FI16 w) = Some (scast w)"
| "as_i64 (FI32 w) = Some (scast w)"
| "as_i64 (FI64 w) = Some w"
| "as_i64 (FU8 w) = Some (ucast w)"
| "as_i64 (FU16 w) = Some (ucast w)"
| "as_i64 (FU32 w) = Some (ucast w)"
| "as_i64 (FU64 w) = (if 0 \<le>s w then Some w else None)"
| "as_i64 _ = None"

definition gbln_value_as_i64 :: "GblnValue \<Rightarrow> ffi_state \<Rightarrow> (64 word \<times> bool) \<times> ffi_state" where
  "gbln_value_as_i64 v = accessor (as_i64 v) 0"

definition gbln_value_as_bool :: "GblnValue \<Rightarrow> ffi_state \<Rightarrow> (bool \<times> bool) \<times> ffi_state" where
  "gbln_value_as_bool v = accessor (case v of FBool b \<Rightarrow> Some b | _ \<Rightarrow> None) False"

definition gbln_value_as_f32 :: "GblnValue \<Rightarrow> ffi_state \<Rightarrow> (32 word \<times> bool) \<times> ffi_state" where
  "gbln_value_as_f32 v = accessor (case v of FF32 x \<Rightarrow> Some x | _ \<Rightarrow> None) 0"

definition gbln_value_as_f64 :: "GblnValue \<Rightarrow> ffi_state \<Rightarrow> (64 word \<times> bool) \<times> ffi_state" where
  "gbln_value_as_f64 v = accessor (case v of FF64 x \<Rightarrow> Some x | _ \<Rightarrow> None) 0"

definition gbln_value_as_string :: "GblnValue \<Rightarrow> ffi_state \<Rightarrow> (string option \<times> bool) \<times> ffi_state" where
  "gbln_value_as_string v =
     accessor (case v of FStr str max_len \<Rightarrow> Some (Some (c_str str)) | _ \<Rightarrow> None) None"

text \<open>
  \<open>gbln_object_keys\<close> hands out a key list owned by the caller and writes its length to
  \<open>out_count\<close>; an empty object has no list (null, count 0).  The children returned by
  \<open>gbln_object_get\<close> and \<open>gbln_array_get\<close> are borrowed.
\<close>

definition gbln_object_keys :: "GblnValue \<Rightarrow> ffi_state \<Rightarrow> (ptr \<times> nat) \<times> ffi_state" where
  "gbln_object_keys v s =
     (case v of
        FObject kvs \<Rightarrow>
          if kvs = [] then ((None, 0), s)
          else (case next_reply s of
                  (code, s1) \<Rightarrow>
                    if code = Ok
                    then (case alloc (ResKeys (map (c_str \<circ> fst) kvs)) s1 of
                            (keys, s2) \<Rightarrow> ((keys, length kvs), s2))
                    else ((None, length kvs), s1))
      | _ \<Rightarrow> ((None, 0), s))"

definition gbln_object_get :: "GblnValue \<Rightarrow> string \<Rightarrow> ffi_state \<Rightarrow> GblnValue option \<times> ffi_state" where
  "gbln_object_get v key s =
     (case v of
        FObject kvs \<Rightarrow>
          (case map_of kvs key of
             None \<Rightarrow> (None, s)
           | Some child \<Rightarrow>
               (case next_reply s of
                  (code, s1) \<Rightarrow> if code = Ok then (Some child, s1) else (None, s1)))
      | _ \<Rightarrow> (None, s))"

definition gbln_array_len :: "GblnValue \<Rightarrow> nat" where
  "gbln_array_len v = (case v of FArray xs \<Rightarrow> length xs | _ \<Rightarrow> 0)"

definition gbln_array_get :: "GblnValue \<Rightarrow> nat \<Rightarrow> ffi_state \<Rightarrow> GblnValue option \<times> ffi_state" where
  "gbln_array_get v index s =
     (case v of
        FArray xs \<Rightarrow>
          if index < length xs
          then (case next_reply s of
                  (code, s1) \<Rightarrow> if code = Ok then (Some (xs ! index), s1) else (None, s1))
          else (None, s)
      | _ \<Rightarrow> (None, s))"

subsection \<open>Parsing, serialisation, I/O, configuration, error text\<close>




definition render :: "(GblnValue \<Rightarrow> string) \<Rightarrow> ptr \<Rightarrow> ffi_state \<Rightarrow> ptr \<times> ffi_state" where
  "render text p s =
     (case value_at s p of
        None \<Rightarrow> (None, s)
      | Some v \<Rightarrow>
          (case next_reply s of
             (code, s1) \<Rightarrow>
               if code = Ok then alloc (ResString (c_str (text v))) s1 else (None, s1)))"

definition gbln_to_string :: "(GblnValue \<Rightarrow> string) \<Rightarrow> ptr \<Rightarrow> ffi_state \<Rightarrow> ptr \<times> ffi_state" where
  "gbln_to_string compact p s = render compact p s"

definition gbln_to_string_pretty :: "(GblnValue \<Rightarrow> string) \<Rightarrow> ptr \<Rightarrow> ffi_state \<Rightarrow> ptr \<times> ffi_state" where
  "gbln_to_string_pretty pretty p s = render pretty p s"

definition gbln_last_error_message :: "ffi_state \<Rightarrow> ptr \<times> ffi_state" where
  "gbln_last_error_message s =
     (case last_error s of
        None \<Rightarrow> (None, s)
      | Some msg \<Rightarrow> alloc (ResString (c_str msg)) s)"

definition string_at :: "ffi_state \<Rightarrow> nat \<Rightarrow> string" where
  "string_at s a = (case store s a of Some (ResString str) \<Rightarrow> str | _ \<Rightarrow> [])"

definition gbln_config_new :: "bool \<Rightarrow> bool \<Rightarrow> 8 word \<Rightarrow> nat \<Rightarrow> bool \<Rightarrow> ffi_state \<Rightarrow> ptr \<times> ffi_state" where
  "gbln_config_new mini_mode compress compression_level indent strip_comments s =
     (case next_reply s of
        (code, s1) \<Rightarrow>
          if code = Ok
          then alloc (ResConfig \<lparr>cfg_mini_mode = mini_mode, cfg_compress = compress,
                 cfg_compression_level = compression_level, cfg_indent = indent,
                 cfg_strip_comments = strip_comments\<rparr>) s1
          else (None, s1))"

definition gbln_write_io :: "ptr \<Rightarrow> string \<Rightarrow> ptr \<Rightarrow> ffi_state \<Rightarrow> GblnErrorCode \<times> ffi_state" where
  "gbln_write_io val path config s =
     (case next_reply s of
        (code, s1) \<Rightarrow>
          if code \<noteq> Ok then (code, s1)
          else (case (val, config) of
                  (Some v_addr, Some c_addr) \<Rightarrow>
                    (case (store s1 v_addr, store s1 c_addr) of
                       (Some (ResValue v), Some (ResConfig c)) \<Rightarrow>
                         (Ok, s1\<lparr>written := written s1 @ [(path, v, c)]\<rparr>)
                     | _ \<Rightarrow> (ErrorTypeMismatch, s1))
                | _ \<Rightarrow> (ErrorNullPointer, s1)))"

section \<open>Scoped handles (managed_value.hpp)\<close>

text \<open>
  Each wrapper holds one pointer.  The constructor throws \<open>std::invalid_argument\<close> on a
  null pointer (for \<open>ManagedKeys\<close>: on null keys with a non-zero count); the member was
  initialised with null in that case, so nothing is freed.  The destructor frees a
  non-null pointer.
\<close>

record ManagedValue =
  mv_ptr :: ptr

definition ManagedValue_new :: "ptr \<Rightarrow> error + ManagedValue" where
  "ManagedValue_new p =
     (if p = None then Inl (InvalidArgument ''Cannot create ManagedValue from null pointer'')
      else Inr \<lparr>mv_ptr = p\<rparr>)"

definition ManagedValue_delete :: "ManagedValue \<Rightarrow> ffi_state \<Rightarrow> ffi_state" where
  "ManagedValue_delete m s = (if mv_ptr m \<noteq> None then gbln_value_free (mv_ptr m) s else s)"

record ManagedString =
  ms_ptr :: ptr

definition ManagedString_new :: "ptr \<Rightarrow> error + ManagedString" where
  "ManagedString_new p =
     (if p = None then Inl (InvalidArgument ''Cannot create ManagedString from null pointer'')
      else Inr \<lparr>ms_ptr = p\<rparr>)"

definition ManagedString_delete :: "ManagedString \<Rightarrow> ffi_state \<Rightarrow> ffi_state" where
  "ManagedString_delete m s = (if ms_ptr m \<noteq> None then gbln_string_free (ms_ptr m) s else s)"

definition ManagedString_str :: "ManagedString \<Rightarrow> ffi_state \<Rightarrow> string" where
  "ManagedString_str m s = (case ms_ptr m of None \<Rightarrow> [] | Some a \<Rightarrow> string_at s a)"

record ManagedConfig =
  mc_ptr :: ptr

definition ManagedConfig_new :: "ptr \<Rightarrow> error + ManagedConfig" where
  "ManagedConfig_new p =
     (if p = None then Inl (InvalidArgument ''Cannot create ManagedConfig from null pointer'')
      else Inr \<lparr>mc_ptr = p\<rparr>)"

definition ManagedConfig_delete :: "ManagedConfig \<Rightarrow> ffi_state \<Rightarrow> ffi_state" where
  "ManagedConfig_delete m s = (if mc_ptr m \<noteq> None then gbln_config_free (mc_ptr m) s else s)"

record ManagedKeys =
  mk_keys :: ptr
  mk_count :: nat

definition ManagedKeys_new :: "ptr \<Rightarrow> nat \<Rightarrow> error + ManagedKeys" where
  "ManagedKeys_new keys count =
     (if keys = None \<and> count > 0 then Inl (InvalidArgument ''Null keys with non-zero count'')
      else Inr \<lparr>mk_keys = keys, mk_count = count\<rparr>)"

definition ManagedKeys_delete :: "ManagedKeys \<Rightarrow> ffi_state \<Rightarrow> ffi_state" where
  "ManagedKeys_delete m s =
     (if mk_keys m \<noteq> None then gbln_keys_free (mk_keys m) (mk_count m) s else s)"

text \<open>
  \<open>operator[]\<close> checks the index against the count and then reads the array; a read the
  array does not cover has no defined result and is reported as such.
\<close>

definition ManagedKeys_index :: "ManagedKeys \<Rightarrow> nat \<Rightarrow> ffi_state \<Rightarrow> error + string" where
  "ManagedKeys_index m index s =
     (if index \<ge> mk_count m then Inl (OutOfRange ''Key index out of range'')
      else (case mk_keys m of
              None \<Rightarrow> Inl (UndefinedRead ''keys_[index]'')
            | Some a \<Rightarrow>
                (case store s a of
                   Some (ResKeys ks) \<Rightarrow>
                     if index < length ks then Inr (ks ! index)
                     else Inl (UndefinedRead ''keys_[index]'')
                 | _ \<Rightarrow> Inl (UndefinedRead ''keys_[index]''))))"

section \<open>Configuration (config.hpp)\<close>

record Config =
  mini_mode :: bool
  compress :: bool
  compression_level :: "32 word"
  indent :: "32 word"
  strip_comments :: bool

definition validate :: "Config \<Rightarrow> error + unit" where
  "validate config =
     (if compression_level config <s 0 \<or> 9 <s compression_level config
      then Inl (ValidationError (''Compression level must be 0-9, got: ''
                  @ std_to_string_int (sint (compression_level config))))
      else if indent config <s 0 \<or> 16 <s indent config
      then Inl (ValidationError (''Indent must be 0-16, got: ''
                  @ std_to_string_int (sint (indent config))))
      else Inr ())"

definition io_default :: Config where
  "io_default = \<lparr>mini_mode = True, compress = True, compression_level = 6, indent = 2,
     strip_comments = True\<rparr>"

definition source_default :: Config where
  "source_default = \<lparr>mini_mode = False, compress = False, compression_level = 6, indent = 2,
     strip_comments = False\<rparr>"

section \<open>Conversion from the value model to foreign handles (conversion.cpp)\<close>

text \<open>
  \<open>cpp_to_ffi\<close> with its two loops.  The container handle is a raw pointer: when the
  conversion of a child throws, the exception leaves the loop as it is; when the insert
  or push is refused, child and container are freed before the throw.
\<close>

fun cpp_to_ffi :: "Value \<Rightarrow> ffi_state \<Rightarrow> (error + ptr) \<times> ffi_state"
  and object_entries :: "ptr \<Rightarrow> (string \<times> Value) list \<Rightarrow> ffi_state \<Rightarrow> (error + unit) \<times> ffi_state"
  and array_elements :: "ptr \<Rightarrow> Value list \<Rightarrow> ffi_state \<Rightarrow> (error + unit) \<times> ffi_state"
where
  "cpp_to_ffi VNull s = (case gbln_value_new_null s of (p, s1) \<Rightarrow> (Inr p, s1))"
| "cpp_to_ffi (VBool arg) s = (case gbln_value_new_bool arg s of (p, s1) \<Rightarrow> (Inr p, s1))"
| "cpp_to_ffi (VInt arg) s = (case create_optimal_int arg s of (p, s1) \<Rightarrow> (Inr p, s1))"
| "cpp_to_ffi (VFloat arg) s = (case gbln_value_new_f64 arg s of (p, s1) \<Rightarrow> (Inr p, s1))"
| "cpp_to_ffi (VString arg) s = create_optimal_string arg s"
| "cpp_to_ffi (VObject arg) s =
     (case gbln_value_new_object s of
        (obj, s1) \<Rightarrow>
          if obj = None then (Inl (SerialiseError ''Failed to create object''), s1)
          else (case object_entries obj arg s1 of
                  (Inl e, s2) \<Rightarrow> (Inl e, s2)
                | (Inr u, s2) \<Rightarrow> (Inr obj, s2)))"
| "cpp_to_ffi (VArray arg) s =
     (case gbln_value_new_array s of
        (arr, s1) \<Rightarrow>
          if arr = None then (Inl (SerialiseError ''Failed to create array''), s1)
          else (case array_elements arr arg s1 of
                  (Inl e, s2) \<Rightarrow> (Inl e, s2)
                | (Inr u, s2) \<Rightarrow> (Inr arr, s2)))"
| "object_entries obj [] s = (Inr (), s)"
| "object_entries obj ((key, val) # rest) s =
     (case cpp_to_ffi val s of
        (Inl e, s1) \<Rightarrow> (Inl e, s1)
      | (Inr ffi_value, s1) \<Rightarrow>
          (case gbln_object_insert obj (c_str key) ffi_value s1 of
             (err, s2) \<Rightarrow>
               if err \<noteq> Ok
               then (Inl (SerialiseError (''Failed to insert object key: '' @ key)),
                     gbln_value_free obj (gbln_value_free ffi_value s2))
               else object_entries obj rest s2))"
| "array_elements arr [] s = (Inr (), s)"
| "array_elements arr (elem # rest) s =
     (case cpp_to_ffi elem s of
        (Inl e, s1) \<Rightarrow> (Inl e, s1)
      | (Inr ffi_value, s1) \<Rightarrow>
          (case gbln_array_push arr ffi_value s1 of
             (err, s2) \<Rightarrow>
               if err \<noteq> Ok
               then (Inl (SerialiseError ''Failed to push array element''),
                     gbln_value_free arr (gbln_value_free ffi_value s2))
               else array_elements arr rest s2))"

section \<open>Conversion from foreign handles to the value model (conversion.cpp)\<close>

text \<open>
  \<open>obj[key] = v\<close> on a \<open>std::map\<close>: the entry is created in key order or overwritten.
  Keys compare bytewise, as \<open>std::string\<close> does.
\<close>

fun map_assign :: "string \<Rightarrow> Value \<Rightarrow> (string \<times> Value) list \<Rightarrow> (string \<times> Value) list" where
  "map_assign key v [] = [(key, v)]"
| "map_assign key v ((k, x) # m) =
     (if key < k then (key, v) # (k, x) # m
      else if key = k then (key, v) # m
      else (k, x) # map_assign key v m)"

lemma size_map_of:
  "map_of kvs key = Some (child :: GblnValue) \<Longrightarrow> size child < size (FObject kvs)"
proof (induction kvs)
  case Nil
  then show ?case by simp
next
  case (Cons kv kvs)
  then show ?case by (cases kv) (auto split: if_splits)
qed

lemma size_nth:
  "index < length xs \<Longrightarrow> size ((xs :: GblnValue list) ! index) < size (FArray xs)"
proof (induction xs arbitrary: index)
  case Nil
  then show ?case by simp
next
  case (Cons x xs)
  then show ?case by (cases index) (fastforce simp add: Suc_le_eq le_SucI)+
qed

lemma gbln_object_get_smaller:
  "gbln_object_get v key s = (Some child, s1) \<Longrightarrow> size child < size v"
  by (auto simp add: gbln_object_get_def dest: size_map_of
      split: GblnValue.splits option.splits prod.splits if_splits)

lemma gbln_array_get_smaller:
  "gbln_array_get v index s = (Some child, s1) \<Longrightarrow> size child < size v"
  by (auto simp add: gbln_array_get_def dest: size_nth
      split: GblnValue.splits option.splits prod.splits if_splits)

text \<open>
  \<open>ffi_to_cpp\<close> with its two loops; \<open>widen\<close> is \<open>static_cast<double>\<close> on a
  \<open>float\<close>.  The key list lives in a \<open>ManagedKeys\<close>, whose destructor runs when the
  object case is left, by \<open>return\<close> or by an exception.
  The last branch of the \<open>switch\<close> below stands for the eight integer labels
  \<open>I8\<close> \<open>\<dots>\<close> \<open>U64\<close>, which share one body; \<open>GblnValueType\<close> has no sixteenth tag, so the
  \<open>default\<close> label of the source is never reached.
\<close>

function ffi_to_cpp :: "(32 word \<Rightarrow> 64 word) \<Rightarrow> GblnValue option \<Rightarrow> ffi_state
      \<Rightarrow> (error + Value) \<times> ffi_state"
  and object_members :: "(32 word \<Rightarrow> 64 word) \<Rightarrow> GblnValue \<Rightarrow> ManagedKeys \<Rightarrow> nat \<Rightarrow> nat
      \<Rightarrow> (string \<times> Value) list \<Rightarrow> ffi_state \<Rightarrow> (error + (string \<times> Value) list) \<times> ffi_state"
  and array_members :: "(32 word \<Rightarrow> 64 word) \<Rightarrow> GblnValue \<Rightarrow> nat \<Rightarrow> nat
      \<Rightarrow> Value list \<Rightarrow> ffi_state \<Rightarrow> (error + Value list) \<times> ffi_state"
where
  "ffi_to_cpp widen None s = (Inl (ParseError ''Null FFI value pointer''), s)"
| "ffi_to_cpp widen (Some ffi_value) s =
     (case gbln_value_type ffi_value of
        Null \<Rightarrow> (Inr VNull, s)
      | Bool \<Rightarrow>
          (case gbln_value_as_bool ffi_value s of
             ((v, ok), s1) \<Rightarrow>
               if \<not> ok then (Inl (ParseError ''Failed to extract boolean value''), s1)
               else (Inr (VBool v), s1))
      | F32 \<Rightarrow>
          (case gbln_value_as_f32 ffi_value s of
             ((v, ok), s1) \<Rightarrow>
               if \<not> ok then (Inl (ParseError ''Failed to extract f32 value''), s1)
               else (Inr (VFloat (widen v)), s1))
      | F64 \<Rightarrow>
          (case gbln_value_as_f64 ffi_value s of
             ((v, ok), s1) \<Rightarrow>
               if \<not> ok then (Inl (ParseError ''Failed to extract f64 value''), s1)
               else (Inr (VFloat v), s1))
      | Str \<Rightarrow>
          (case gbln_value_as_string ffi_value s of
             ((str_ptr, ok), s1) \<Rightarrow>
               if \<not> ok \<or> str_ptr = None
               then (Inl (ParseError ''Failed to extract string value''), s1)
               else (Inr (VString (the str_ptr)), s1))
      | Object \<Rightarrow>
          (case gbln_object_keys ffi_value s of
             ((keys, count), s1) \<Rightarrow>
               if keys = None \<and> count > 0
               then (Inl (ParseError ''Failed to get object keys''), s1)
               else (case ManagedKeys_new keys count of
                       Inl e \<Rightarrow> (Inl e, s1)
                     | Inr managed_keys \<Rightarrow>
                         (case object_members widen ffi_value managed_keys 0 count [] s1 of
                            (Inl e, s2) \<Rightarrow> (Inl e, ManagedKeys_delete managed_keys s2)
                          | (Inr obj, s2) \<Rightarrow>
                              (Inr (VObject obj), ManagedKeys_delete managed_keys s2))))
      | Array \<Rightarrow>
          (case array_members widen ffi_value 0 (gbln_array_len ffi_value) [] s of
             (Inl e, s1) \<Rightarrow> (Inl e, s1)
           | (Inr arr, s1) \<Rightarrow> (Inr (VArray arr), s1))
      | _ \<Rightarrow>
          (case gbln_value_as_i64 ffi_value s of
             ((v, ok), s1) \<Rightarrow>
               if \<not> ok then (Inl (ParseError ''Failed to extract integer value''), s1)
               else (Inr (VInt v), s1)))"
| "object_members widen ffi_value managed_keys i count obj s =
     (if i < count then
        (case ManagedKeys_index managed_keys i s of
           Inl e \<Rightarrow> (Inl e, s)
         | Inr key \<Rightarrow>
             (case gbln_object_get ffi_value key s of
                (None, s1) \<Rightarrow>
                  (Inl (ParseError (''Failed to get object value for key: '' @ key)), s1)
              | (Some value_ptr, s1) \<Rightarrow>
                  (case ffi_to_cpp widen (Some value_ptr) s1 of
                     (Inl e, s2) \<Rightarrow> (Inl e, s2)
                   | (Inr v, s2) \<Rightarrow>
                       object_members widen ffi_value managed_keys (i + 1) count
                         (map_assign key v obj) s2)))
      else (Inr obj, s))"
| "array_members widen ffi_value i len arr s =
     (if i < len then
        (case gbln_array_get ffi_value i s of
           (None, s1) \<Rightarrow>
             (Inl (ParseError (''Failed to get array element at index: '' @ std_to_string i)), s1)
         | (Some elem, s1) \<Rightarrow>
             (case ffi_to_cpp widen (Some elem) s1 of
                (Inl e, s2) \<Rightarrow> (Inl e, s2)
              | (Inr v, s2) \<Rightarrow> array_members widen ffi_value (i + 1) len (arr @ [v]) s2))
      else (Inr arr, s))"
  by pat_completeness auto
termination
proof (relation "inv_image (less_than <*lex*> less_than <*lex*> less_than)
    (\<lambda>x. case x of
       Inl (widen, p, s) \<Rightarrow> (case p of None \<Rightarrow> 0 | Some v \<Rightarrow> size v, 1, 0)
     | Inr (Inl (widen, v, mk, i, count, obj, s)) \<Rightarrow> (size v, 0, count - i)
     | Inr (Inr (widen, v, i, len, arr, s)) \<Rightarrow> (size v, 0, len - i))")
qed (auto intro: gbln_object_get_smaller gbln_array_get_smaller
    split: prod.splits option.splits)

declare ffi_to_cpp.simps(2) [simp del]
declare object_members.simps [simp del]
declare array_members.simps [simp del]

section \<open>Public entry points (parser.cpp, io.cpp, serialiser.cpp)\<close>

text \<open>
  \<open>std::string(p)\<close> on a foreign string copies it; the copy is taken from the store
  before the string is freed.  Locals are destroyed in reverse order of construction on
  every way out of a function.
\<close>

definition quoted :: "string \<Rightarrow> string" where
  "quoted str = [CHR 0x27] @ str @ [CHR 0x27]"




definition write_io :: "Value \<Rightarrow> string \<Rightarrow> Config \<Rightarrow> ffi_state \<Rightarrow> (error + unit) \<times> ffi_state" where
  "write_io val path_str config s =
     (case validate config of
        Inl e \<Rightarrow> (Inl e, s)
      | Inr u \<Rightarrow>
          (case cpp_to_ffi val s of
             (Inl e, s1) \<Rightarrow> (Inl e, s1)
           | (Inr ffi_value, s1) \<Rightarrow>
               (case ManagedValue_new ffi_value of
                  Inl e \<Rightarrow> (Inl e, s1)
                | Inr managed_value \<Rightarrow>
                    (case gbln_config_new (mini_mode config) (compress config)
                            (ucast (compression_level config))
                            (unat (scast (indent config) :: 64 word))
                            (strip_comments config) s1 of
                       (ffi_config, s2) \<Rightarrow>
                         if ffi_config = None
                         then (Inl (IoError ''Failed to create configuration''),
                               ManagedValue_delete managed_value s2)
                         else (case ManagedConfig_new ffi_config of
                                 Inl e \<Rightarrow> (Inl e, ManagedValue_delete managed_value s2)
                               | Inr managed_config \<Rightarrow>
                                   (case gbln_write_io (mv_ptr managed_value) (c_str path_str)
                                           (mc_ptr managed_config) s2 of
                                      (result, s3) \<Rightarrow>
                                        if result \<noteq> Ok then
                                          (case gbln_last_error_message s3 of
                                             (error_msg, s4) \<Rightarrow>
                                               (Inl (IoError (''Failed to write I/O file ''
                                                   @ quoted path_str @ '': ''
                                                   @ (case error_msg of
                                                        None \<Rightarrow> ''I/O write failed''
                                                      | Some a \<Rightarrow> string_at s4 a))),
                                                ManagedValue_delete managed_value
                                                  (ManagedConfig_delete managed_config
                                                    (if error_msg \<noteq> None
                                                     then gbln_string_free error_msg s4
                                                     else s4))))
                                        else (Inr (),
                                              ManagedValue_delete managed_value
                                                (ManagedConfig_delete managed_config s3))))))))"

definition to_string :: "(GblnValue \<Rightarrow> string) \<Rightarrow> (GblnValue \<Rightarrow> string) \<Rightarrow> Value \<Rightarrow> bool
    \<Rightarrow> ffi_state \<Rightarrow> (error + string) \<times> ffi_state" where
  "to_string compact pretty val mini s =
     (case cpp_to_ffi val s of
        (Inl e, s1) \<Rightarrow> (Inl e, s1)
      | (Inr ffi_value, s1) \<Rightarrow>
          (case ManagedValue_new ffi_value of
             Inl e \<Rightarrow> (Inl e, s1)
           | Inr managed \<Rightarrow>
               (case (if mini then gbln_to_string compact (mv_ptr managed) s1
                      else gbln_to_string_pretty pretty (mv_ptr managed) s1) of
                  (result_str, s2) \<Rightarrow>
                    if result_str = None
                    then (Inl (SerialiseError ''Serialisation returned null pointer''),
                          ManagedValue_delete managed s2)
                    else (case ManagedString_new result_str of
                            Inl e \<Rightarrow> (Inl e, ManagedValue_delete managed s2)
                          | Inr managed_str \<Rightarrow>
                              (Inr (ManagedString_str managed_str s2),
                               ManagedValue_delete managed
                                 (ManagedString_delete managed_str s2))))))"

definition to_string_pretty :: "(GblnValue \<Rightarrow> string) \<Rightarrow> (GblnValue \<Rightarrow> string) \<Rightarrow> Value
    \<Rightarrow> 32 word \<Rightarrow> ffi_state \<Rightarrow> (error + string) \<times> ffi_state" where
  "to_string_pretty compact pretty val indent_arg s = to_string compact pretty val False s"

section \<open>Notions used to state the properties\<close>

text \<open>
  The foreign tree that a successful \<open>cpp_to_ffi\<close> leaves behind its handle, written
  as a function of the value (the lemmas below prove that it is this tree).
\<close>

definition optimal_int_tree :: "64 word \<Rightarrow> GblnValue" where
  "optimal_int_tree v =
     (if 0 \<le>s v then
        (if v \<le>s 255 then FU8 (ucast v)
         else if v \<le>s 65535 then FU16 (ucast v)
         else if v \<le>s 4294967295 then FU32 (ucast v)
         else FU64 (ucast v))
      else if - 128 \<le>s v \<and> v \<le>s 127 then FI8 (ucast v)
      else if - 32768 \<le>s v \<and> v \<le>s 32767 then FI16 (ucast v)
      else if - 2147483648 \<le>s v \<and> v \<le>s 2147483647 then FI32 (ucast v)
      else FI64 v)"

definition bucket_of :: "nat \<Rightarrow> nat" where
  "bucket_of c = (case filter (\<lambda>b. c \<le> b) buckets of [] \<Rightarrow> 0 | b # bs \<Rightarrow> b)"

definition char_count :: "string \<Rightarrow> nat" where
  "char_count str = (case count_chars str 0 0 of Inl e \<Rightarrow> 0 | Inr c \<Rightarrow> c)"

fun foreign_tree :: "Value \<Rightarrow> GblnValue" where
  "foreign_tree VNull = FNull"
| "foreign_tree (VBool b) = FBool b"
| "foreign_tree (VInt n) = optimal_int_tree n"
| "foreign_tree (VFloat x) = FF64 x"
| "foreign_tree (VString str) = FStr (c_str str) (bucket_of (char_count str))"
| "foreign_tree (VObject kvs) = FObject (map (\<lambda>(k, v). (c_str k, foreign_tree v)) kvs)"
| "foreign_tree (VArray xs) = FArray (map foreign_tree xs)"

text \<open>
  A value the bindings can pass through the engine unchanged: every string has at most
  1024 characters by the scan of \<open>create_optimal_string\<close> and no zero byte (it is its
  own C string); every object is a \<open>std::map\<close>, its keys strictly ascending, and its keys
  have no zero byte.
\<close>

definition c_string :: "string \<Rightarrow> bool" where
  "c_string str = (CHR 0x00 \<notin> set str)"

fun representable :: "Value \<Rightarrow> bool" where
  "representable (VString str) =
     (c_string str \<and> (case count_chars str 0 0 of Inl e \<Rightarrow> False | Inr c \<Rightarrow> c \<le> 1024))"
| "representable (VObject kvs) =
     (sorted_wrt (<) (map fst kvs) \<and> (\<forall>(k, v) \<in> set kvs. c_string k \<and> representable v))"
| "representable (VArray xs) = (\<forall>v \<in> set xs. representable v)"
| "representable _ = True"

text \<open>
  The engine has handed out the addresses below \<open>next_addr\<close> only, and has not freed
  any address twice or while keeping it live.
\<close>

definition wf_state :: "ffi_state \<Rightarrow> bool" where
  "wf_state s =
     ((\<forall>a. store s a \<noteq> None \<longrightarrow> a < next_addr s)
      \<and> (\<forall>a \<in> set (released s). a < next_addr s \<and> store s a = None)
      \<and> distinct (released s))"

text \<open>
  The engine after it has handed out one value handle, at address 1, holding \<open>v\<close>, with
  the given replies pending.
\<close>

definition state_with :: "GblnValue \<Rightarrow> reply list \<Rightarrow> ffi_state" where
  "state_with v replies =
     init_state\<lparr>store := [1 \<mapsto> ResValue v], next_addr := 2, script := replies\<rparr>"

text \<open>
  A value whose objects are maps: the keys of every object are strictly ascending.
\<close>

fun valid_value :: "Value \<Rightarrow> bool" where
  "valid_value (VObject kvs) =
     (sorted_wrt (<) (map fst kvs) \<and> (\<forall>(k, v) \<in> set kvs. valid_value v))"
| "valid_value (VArray xs) = (\<forall>v \<in> set xs. valid_value v)"
| "valid_value _ = True"

text \<open>
  The key list a \<open>ManagedKeys\<close> wraps is live and has as many keys as the count says, or
  the wrapper is empty.
\<close>

definition keys_ok :: "ManagedKeys \<Rightarrow> nat \<Rightarrow> ffi_state \<Rightarrow> bool" where
  "keys_ok m count s =
     (mk_count m = count
      \<and> (case mk_keys m of
            None \<Rightarrow> count = 0
          | Some a \<Rightarrow> (case store s a of Some (ResKeys ks) \<Rightarrow> length ks = count | _ \<Rightarrow> False)))"

text \<open>
  \<open>settled s s'\<close>: the engine went from \<open>s\<close> to \<open>s'\<close> keeping every resource of \<open>s\<close>
  and leaving no new one; what was acquired in between has been released.
\<close>

definition settled :: "ffi_state \<Rightarrow> ffi_state \<Rightarrow> bool" where
  "settled s s' =
     (wf_state s' \<and> store s' = store s \<and> next_addr s \<le> next_addr s'
      \<and> written s' = written s \<and> (script s = [] \<longrightarrow> script s' = []))"

subsection \<open>The round trip through the engine\<close>

text \<open>
  \<open>round_trip\<close> converts a value to a foreign handle and converts the tree behind that
  handle back; \<open>round_trip_text\<close> then serialises the result in compact form, as
  \<open>to_string\<close> with \<open>mini = true\<close> does.
\<close>

definition round_trip :: "(32 word \<Rightarrow> 64 word) \<Rightarrow> Value \<Rightarrow> ffi_state \<Rightarrow> (error + Value) \<times> ffi_state" where
  "round_trip widen V s =
     (case cpp_to_ffi V s of
        (Inl e, s1) \<Rightarrow> (Inl e, s1)
      | (Inr p, s1) \<Rightarrow> ffi_to_cpp widen (value_at s1 p) s1)"

definition round_trip_text :: "(GblnValue \<Rightarrow> string) \<Rightarrow> (32 word \<Rightarrow> 64 word) \<Rightarrow> Value \<Rightarrow> ffi_state
    \<Rightarrow> (error + string) \<times> ffi_state" where
  "round_trip_text compact widen V s =
     (case round_trip widen V s of
        (Inl e, s2) \<Rightarrow> (Inl e, s2)
      | (Inr V', s2) \<Rightarrow> to_string compact compact V' True s2)"

text \<open>
  A stand-in for \<open>static_cast<double>\<close> where no \<open>F32\<close> value occurs.
\<close>

definition zero_widen :: "32 word \<Rightarrow> 64 word" where
  "zero_widen x = 0"

subsection \<open>The documented compact form\<close>

text \<open>
  Modelled from the spec: the byte-level serialiser belongs to the engine and is missing
  from the bindings.  serialiser.hpp documents the compact output for the object with the
  members \<open>name\<close> = \<open>Alice\<close> and \<open>age\<close> = 25 as \<open>age<u8>(25)name<s8>(Alice)\<close>: each member
  is written as its key, the type hint of its foreign tag in angle brackets (for a string
  \<open>s\<close> and the capacity) and the payload in parentheses; the examples of parser.hpp and
  the spec write a nested object as \<open>key{...}\<close> and a boolean as \<open><b>(t)\<close>.
  \<open>compact_text\<close> follows these forms.  The documentation shows no array, null or float:
  an array is written in brackets here, and the payload of a null and of a float (which
  the model keeps as a bit pattern) is left empty.
\<close>

fun type_hint :: "GblnValue \<Rightarrow> string" where
  "type_hint (FI8 w) = ''i8''"
| "type_hint (FI16 w) = ''i16''"
| "type_hint (FI32 w) = ''i32''"
| "type_hint (FI64 w) = ''i64''"
| "type_hint (FU8 w) = ''u8''"
| "type_hint (FU16 w) = ''u16''"
| "type_hint (FU32 w) = ''u32''"
| "type_hint (FU64 w) = ''u64''"
| "type_hint (FF32 x) = ''f32''"
| "type_hint (FF64 x) = ''f64''"
| "type_hint (FStr str max_len) = ''s'' @ std_to_string max_len"
| "type_hint (FBool b) = ''b''"
| "type_hint FNull = ''n''"
| "type_hint (FObject kvs) = []"
| "type_hint (FArray xs) = []"

fun payload :: "GblnValue \<Rightarrow> string" where
  "payload (FI8 w) = std_to_string_int (sint w)"
| "payload (FI16 w) = std_to_string_int (sint w)"
| "payload (FI32 w) = std_to_string_int (sint w)"
| "payload (FI64 w) = std_to_string_int (sint w)"
| "payload (FU8 w) = std_to_string (unat w)"
| "payload (FU16 w) = std_to_string (unat w)"
| "payload (FU32 w) = std_to_string (unat w)"
| "payload (FU64 w) = std_to_string (unat w)"
| "payload (FStr str max_len) = str"
| "payload (FBool b) = (if b then ''t'' else ''f'')"
| "payload v = []"

fun compact_text :: "GblnValue \<Rightarrow> string"
  and compact_members :: "(string \<times> GblnValue) list \<Rightarrow> string"
  and compact_items :: "GblnValue list \<Rightarrow> string"
where
  "compact_text (FObject kvs) = compact_members kvs"
| "compact_text (FArray xs) = ''['' @ compact_items xs @ '']''"
| "compact_text v = ''<'' @ type_hint v @ ''>('' @ payload v @ '')''"
| "compact_members [] = []"
| "compact_members ((key, FObject kvs) # rest)
     = key @ ''{'' @ compact_members kvs @ ''}'' @ compact_members rest"
| "compact_members ((key, v) # rest) = key @ compact_text v @ compact_members rest"
| "compact_items [] = []"
| "compact_items (FObject kvs # rest) = ''{'' @ compact_members kvs @ ''}'' @ compact_items rest"
| "compact_items (v # rest) = compact_text v @ compact_items rest"

section \<open>Properties of the integer selector\<close>

lemma uint_ucast_sint:
  fixes v :: "64 word"
  assumes "0 \<le> sint v" "sint v < 2 ^ LENGTH('b::len)" "LENGTH('b) \<le> 64"
  shows "uint (ucast v :: 'b word) = sint v"
proof -
  have "uint (ucast v :: 'b word) = take_bit LENGTH('b) (uint v)"
    by (simp add: unsigned_ucast_eq)
  also have "\<dots> = take_bit LENGTH('b) (take_bit 64 (sint v))"
    by (simp add: uint_sint [of v])
  also have "\<dots> = take_bit LENGTH('b) (sint v)"
    using assms(3) by (simp add: min_def)
  also have "\<dots> = sint v"
    using assms(1,2) by (simp add: take_bit_int_eq_self)
  finally show ?thesis .
qed

lemma sint_ucast_sint:
  fixes v :: "64 word"
  assumes "- (2 ^ (LENGTH('b::len) - 1)) \<le> sint v" "sint v < 2 ^ (LENGTH('b) - 1)" "LENGTH('b) \<le> 64"
  shows "sint (ucast v :: 'b word) = sint v"
proof -
  have "sint (ucast v :: 'b word) = signed_take_bit (LENGTH('b) - 1) (take_bit 64 (sint v))"
    by (simp add: signed_ucast_eq uint_sint)
  also have "\<dots> = signed_take_bit (LENGTH('b) - 1) (sint v)"
    using assms(3) by (simp add: signed_take_bit_take_bit)
  also have "\<dots> = sint v"
    using assms(1,2) by (simp add: signed_take_bit_int_eq_self)
  finally show ?thesis .
qed

lemma sle_iff: "(a::64 word) \<le>s b \<longleftrightarrow> sint a \<le> sint b"
  by (simp add: word_sle_eq)

lemma create_optimal_int_cases:
  "create_optimal_int v s =
     (if 0 \<le> sint v then
        (if sint v \<le> 255 then new_value (FU8 (ucast v)) s
         else if sint v \<le> 65535 then new_value (FU16 (ucast v)) s
         else if sint v \<le> 4294967295 then new_value (FU32 (ucast v)) s
         else new_value (FU64 v) s)
      else if - 128 \<le> sint v then new_value (FI8 (ucast v)) s
      else if - 32768 \<le> sint v then new_value (FI16 (ucast v)) s
      else if - 2147483648 \<le> sint v then new_value (FI32 (ucast v)) s
      else new_value (FI64 v) s)"
  by (simp add: create_optimal_int_def sle_iff gbln_value_new_u8_def gbln_value_new_u16_def
      gbln_value_new_u32_def gbln_value_new_u64_def gbln_value_new_i8_def gbln_value_new_i16_def
      gbln_value_new_i32_def gbln_value_new_i64_def)

lemma represents_cases:
  "represents t n \<longleftrightarrow>
     (t = U8 \<and> 0 \<le> n \<and> n < 256) \<or> (t = U16 \<and> 0 \<le> n \<and> n < 65536) \<or>
     (t = U32 \<and> 0 \<le> n \<and> n < 4294967296) \<or> (t = U64 \<and> 0 \<le> n \<and> n < 18446744073709551616) \<or>
     (t = I8 \<and> - 128 \<le> n \<and> n < 128) \<or> (t = I16 \<and> - 32768 \<le> n \<and> n < 32768) \<or>
     (t = I32 \<and> - 2147483648 \<le> n \<and> n < 2147483648) \<or>
     (t = I64 \<and> - 9223372036854775808 \<le> n \<and> n < 9223372036854775808)"
  by (cases t) (simp_all add: represents_def is_unsigned_def is_signed_def)

lemma create_optimal_int_parts:
  shows "\<exists>v. create_optimal_int n s = new_value v s
     \<and> int_value v = Some (sint n)
     \<and> gbln_value_type v \<in> set int_tags
     \<and> represents (gbln_value_type v) (sint n)
     \<and> (\<forall>t \<in> set int_tags. represents t (sint n) \<longrightarrow> tag_width (gbln_value_type v) \<le> tag_width t)
     \<and> (0 \<le> sint n \<longrightarrow> is_unsigned (gbln_value_type v))
     \<and> (sint n < 0 \<longrightarrow> is_signed (gbln_value_type v))"
  and "create_optimal_int 200 s = gbln_value_new_u8 200 s"
  and "create_optimal_int (- 5) s = gbln_value_new_i8 (- 5) s"
  and "create_optimal_int 70000 s = gbln_value_new_u32 70000 s"
proof -
  have b: "sint n < 9223372036854775808" "- 9223372036854775808 \<le> sint n"
    using sint_lt [of n] sint_ge [of n] by simp_all
  consider "0 \<le> sint n" "sint n \<le> 255" | "255 < sint n" "sint n \<le> 65535"
    | "65535 < sint n" "sint n \<le> 4294967295" | "4294967295 < sint n"
    | "sint n < 0" "- 128 \<le> sint n" | "sint n < - 128" "- 32768 \<le> sint n"
    | "sint n < - 32768" "- 2147483648 \<le> sint n" | "sint n < - 2147483648"
    by linarith
  then show "\<exists>v. create_optimal_int n s = new_value v s
     \<and> int_value v = Some (sint n)
     \<and> gbln_value_type v \<in> set int_tags
     \<and> represents (gbln_value_type v) (sint n)
     \<and> (\<forall>t \<in> set int_tags. represents t (sint n) \<longrightarrow> tag_width (gbln_value_type v) \<le> tag_width t)
     \<and> (0 \<le> sint n \<longrightarrow> is_unsigned (gbln_value_type v))
     \<and> (sint n < 0 \<longrightarrow> is_signed (gbln_value_type v))"
  proof cases
    case 1
    then have "uint (ucast n :: 8 word) = sint n" by (intro uint_ucast_sint) simp_all
    with 1 show ?thesis
      by (intro exI [of _ "FU8 (ucast n)"])
        (auto simp add: create_optimal_int_cases represents_cases int_tags_def is_unsigned_def)
  next
    case 2
    then have "uint (ucast n :: 16 word) = sint n" by (intro uint_ucast_sint) simp_all
    with 2 show ?thesis
      by (intro exI [of _ "FU16 (ucast n)"])
        (auto simp add: create_optimal_int_cases represents_cases int_tags_def is_unsigned_def)
  next
    case 3
    then have "uint (ucast n :: 32 word) = sint n" by (intro uint_ucast_sint) simp_all
    with 3 show ?thesis
      by (intro exI [of _ "FU32 (ucast n)"])
        (auto simp add: create_optimal_int_cases represents_cases int_tags_def is_unsigned_def)
  next
    case 4
    then have "uint n = sint n" using uint_ucast_sint [of n, where 'b = 64] b by simp
    with 4 b show ?thesis
      by (intro exI [of _ "FU64 n"])
        (auto simp add: create_optimal_int_cases represents_cases int_tags_def is_unsigned_def)
  next
    case 5
    then have "sint (ucast n :: 8 word) = sint n" by (intro sint_ucast_sint) simp_all
    with 5 show ?thesis
      by (intro exI [of _ "FI8 (ucast n)"])
        (auto simp add: create_optimal_int_cases represents_cases int_tags_def is_signed_def)
  next
    case 6
    then have "sint (ucast n :: 16 word) = sint n" by (intro sint_ucast_sint) simp_all
    with 6 show ?thesis
      by (intro exI [of _ "FI16 (ucast n)"])
        (auto simp add: create_optimal_int_cases represents_cases int_tags_def is_signed_def)
  next
    case 7
    then have "sint (ucast n :: 32 word) = sint n" by (intro sint_ucast_sint) simp_all
    with 7 show ?thesis
      by (intro exI [of _ "FI32 (ucast n)"])
        (auto simp add: create_optimal_int_cases represents_cases int_tags_def is_signed_def)
  next
    case 8
    with b show ?thesis
      by (intro exI [of _ "FI64 n"])
        (auto simp add: create_optimal_int_cases represents_cases int_tags_def is_signed_def)
  qed
  show "create_optimal_int 200 s = gbln_value_new_u8 200 s"
    by (simp add: create_optimal_int_def word_sle_eq)
  have "create_optimal_int (- 5) s = gbln_value_new_i8 18446744073709551611 s"
    by (simp add: create_optimal_int_def word_sle_eq)
  also have "(18446744073709551611 :: 8 word) = - 5"
    by simp
  finally show "create_optimal_int (- 5) s = gbln_value_new_i8 (- 5) s" .
  show "create_optimal_int 70000 s = gbln_value_new_u32 70000 s"
    by (simp add: create_optimal_int_def word_sle_eq)
qed

text \<open>
  C2.  For every 64-bit signed integer \<open>n\<close>, \<open>create_optimal_int\<close> calls exactly one
  foreign constructor (it has no failing branch of its own), and the value it asks for is
  an integer that denotes \<open>n\<close> exactly, under a tag that represents \<open>n\<close> and is no wider
  than any integer tag representing \<open>n\<close>; a non-negative \<open>n\<close> gets an unsigned tag, a
  negative \<open>n\<close> a signed one.  200 selects U8, -5 selects I8, 70000 selects U32.
\<close>

theorem create_optimal_int_narrowest:
  "(\<exists>v. create_optimal_int n s = new_value v s
      \<and> int_value v = Some (sint n)
      \<and> gbln_value_type v \<in> set int_tags
      \<and> represents (gbln_value_type v) (sint n)
      \<and> (\<forall>t \<in> set int_tags. represents t (sint n) \<longrightarrow> tag_width (gbln_value_type v) \<le> tag_width t)
      \<and> (0 \<le> sint n \<longrightarrow> is_unsigned (gbln_value_type v))
      \<and> (sint n < 0 \<longrightarrow> is_signed (gbln_value_type v)))
   \<and> create_optimal_int 200 s = gbln_value_new_u8 200 s
   \<and> create_optimal_int (- 5) s = gbln_value_new_i8 (- 5) s
   \<and> create_optimal_int 70000 s = gbln_value_new_u32 70000 s"
  using create_optimal_int_parts(1) [of n s] create_optimal_int_parts(2-4) [of s] by blast

theorem create_optimal_int_narrowest_witness:
  "represents U8 (sint (200 :: 64 word)) \<and> 0 \<le> sint (200 :: 64 word)
   \<and> (\<exists>v. create_optimal_int 200 init_state = new_value v init_state
          \<and> int_value v = Some 200 \<and> tag_width (gbln_value_type v) \<le> 8
          \<and> is_unsigned (gbln_value_type v))
   \<and> sint (- 5 :: 64 word) < 0
   \<and> (\<exists>v. create_optimal_int (- 5) init_state = new_value v init_state
          \<and> int_value v = Some (- 5) \<and> is_signed (gbln_value_type v))"
proof -
  have "represents U8 (sint (200 :: 64 word))" "0 \<le> sint (200 :: 64 word)"
    "sint (- 5 :: 64 word) < 0" "U8 \<in> set int_tags"
    by (simp_all add: represents_cases int_tags_def)
  with create_optimal_int_narrowest [of 200 init_state]
    create_optimal_int_narrowest [of "- 5" init_state]
  show ?thesis by fastforce
qed

section \<open>Properties of the string selector\<close>

text \<open>
  A property of all 256 bytes is checked on each of them; this relates the mask tests of
  the source to the bit patterns of \<open>lead_len\<close>.
\<close>

lemma byte_cases:
  assumes "list_all (\<lambda>n. P (word_of_nat n :: 8 word)) [0..<256]"
  shows "P c"
proof -
  have "unat c < 256"
    using unsigned_less [of c, where 'a = nat] by simp
  then have mem: "unat c \<in> set [0..<256]"
    by simp
  have all: "\<forall>n \<in> set [0..<256]. P (word_of_nat n)"
    using assms unfolding list_all_iff .
  from bspec [OF all mem] show ?thesis
    by simp
qed

lemma lead_len_code:
  "lead_len c =
     (if c < 0x80 then Some 1
      else if c AND 0xE0 = 0xC0 then Some 2
      else if c AND 0xF0 = 0xE0 then Some 3
      else if c AND 0xF8 = 0xF0 then Some 4
      else None)"
  by (rule byte_cases [of _ c]) code_simp




lemma lead_len_range: "lead_len c = Some k \<Longrightarrow> k \<in> {1, 2, 3, 4}"
  by (auto simp add: lead_len_def split: if_splits)

lemma count_chars_out: "\<not> i < length str \<Longrightarrow> count_chars str i n = Inr n"
  by (subst count_chars.simps) simp

lemma count_chars_step:
  "i < length str \<Longrightarrow> lead_len (byte (str ! i)) = Some k
     \<Longrightarrow> count_chars str i n = count_chars str (i + k) (n + 1)"
  by (subst count_chars.simps) (auto simp add: lead_len_code split: if_splits)

lemma count_chars_bad:
  "i < length str \<Longrightarrow> lead_len (byte (str ! i)) = None
     \<Longrightarrow> count_chars str i n = Inl (SerialiseError ''Invalid UTF-8 sequence in string'')"
  by (subst count_chars.simps) (auto simp add: lead_len_code split: if_splits)

lemma lead_positions_out: "\<not> i < length str \<Longrightarrow> lead_positions str i = []"
  by (subst lead_positions.simps) simp

lemma lead_positions_step:
  "i < length str \<Longrightarrow> lead_len (byte (str ! i)) = Some k
     \<Longrightarrow> lead_positions str i = i # lead_positions str (i + k)"
  by (subst lead_positions.simps) simp

lemma lead_positions_bad:
  "i < length str \<Longrightarrow> lead_len (byte (str ! i)) = None \<Longrightarrow> lead_positions str i = [i]"
  by (subst lead_positions.simps) simp

lemma count_chars_eq:
  "count_chars str i n =
     (if \<forall>j \<in> set (lead_positions str i). lead_len (byte (str ! j)) \<noteq> None
      then Inr (n + length (lead_positions str i))
      else Inl (SerialiseError ''Invalid UTF-8 sequence in string''))"
proof (induction str i arbitrary: n rule: lead_positions.induct)
  case (1 str i)
  show ?case
  proof (cases "i < length str")
    case False
    then show ?thesis
      by (simp add: count_chars_out lead_positions_out)
  next
    case True
    show ?thesis
    proof (cases "lead_len (byte (str ! i))")
      case None
      with True show ?thesis
        by (simp add: count_chars_bad lead_positions_bad)
    next
      case (Some k)
      have "count_chars str i n = count_chars str (i + k) (n + 1)"
        using True Some by (rule count_chars_step)
      also note 1 [OF True Some, of "n + 1"]
      finally show ?thesis
        using Some by (simp add: lead_positions_step [OF True Some])
    qed
  qed
qed

lemma lead_positions_cong:
  "length str' = length str \<Longrightarrow> \<forall>j \<in> set (lead_positions str i). str' ! j = str ! j
     \<Longrightarrow> lead_positions str' i = lead_positions str i"
proof (induction str i rule: lead_positions.induct)
  case (1 str i)
  show ?case
  proof (cases "i < length str")
    case False
    with 1(2) show ?thesis
      by (simp add: lead_positions_out)
  next
    case True
    then have True': "i < length str'"
      using 1(2) by simp
    show ?thesis
    proof (cases "lead_len (byte (str ! i))")
      case None
      from 1(3) have here: "str' ! i = str ! i"
        by (simp add: lead_positions_bad [OF True None])
      with None have "lead_len (byte (str' ! i)) = None"
        by simp
      then show ?thesis
        by (simp add: lead_positions_bad [OF True None] lead_positions_bad [OF True'])
    next
      case (Some k)
      from 1(3) have here: "str' ! i = str ! i"
        and rest: "\<forall>j \<in> set (lead_positions str (i + k)). str' ! j = str ! j"
        by (simp_all add: lead_positions_step [OF True Some])
      from here Some have Some': "lead_len (byte (str' ! i)) = Some k"
        by simp
      from 1(1) [OF True Some 1(2) rest] show ?thesis
        by (simp add: lead_positions_step [OF True Some] lead_positions_step [OF True' Some'])
    qed
  qed
qed

lemma count_chars_ascii:
  "\<forall>c \<in> set str. byte c < 0x80 \<Longrightarrow> count_chars str i n = Inr (n + (length str - i))"
proof (induction str i n rule: count_chars.induct)
  case (1 str i n)
  show ?case
  proof (cases "i < length str")
    case False
    then show ?thesis
      by (simp add: count_chars_out)
  next
    case True
    with 1(5) have small: "byte (str ! i) < 0x80"
      by simp
    from 1(1) [OF True small 1(5)] True small show ?thesis
      by (subst count_chars.simps) simp
  qed
qed

lemma select_bucket:
  "c \<le> 1024 \<Longrightarrow>
     \<exists>b \<in> set buckets. c \<le> b \<and> (\<forall>b' \<in> set buckets. c \<le> b' \<longrightarrow> b \<le> b') \<and>
       (if c \<le> 2 then Inr 2
        else if c \<le> 4 then Inr 4
        else if c \<le> 8 then Inr 8
        else if c \<le> 16 then Inr 16
        else if c \<le> 32 then Inr 32
        else if c \<le> 64 then Inr 64
        else if c \<le> 128 then Inr 128
        else if c \<le> 256 then Inr 256
        else if c \<le> 512 then Inr 512
        else if c \<le> 1024 then Inr 1024
        else Inl (e :: error)) = Inr (b :: nat)"
  by (simp add: buckets_def)

lemma create_optimal_string_parts:
  assumes "count_chars str 0 0 = Inr c"
  shows "c \<le> 1024 \<Longrightarrow>
           \<exists>b \<in> set buckets. c \<le> b \<and> (\<forall>b' \<in> set buckets. c \<le> b' \<longrightarrow> b \<le> b') \<and>
             create_optimal_string str s =
               (case gbln_value_new_str (c_str str) b s of (p, s') \<Rightarrow> (Inr p, s'))"
    and "1024 < c \<Longrightarrow>
           create_optimal_string str s =
             (Inl (SerialiseError (''String too long ('' @ std_to_string c
                @ '' characters, max 1024)'')), s)"
    and "create_optimal_string [] s =
           (case gbln_value_new_str [] 2 s of (p, s') \<Rightarrow> (Inr p, s'))"
    and "create_optimal_string ''abc'' s =
           (case gbln_value_new_str ''abc'' 4 s of (p, s') \<Rightarrow> (Inr p, s'))"
    and "create_optimal_string (replicate 1025 (CHR ''a'')) s =
           (Inl (SerialiseError ''String too long (1025 characters, max 1024)''), s)"
proof -
  show "\<exists>b \<in> set buckets. c \<le> b \<and> (\<forall>b' \<in> set buckets. c \<le> b' \<longrightarrow> b \<le> b') \<and>
             create_optimal_string str s =
               (case gbln_value_new_str (c_str str) b s of (p, s') \<Rightarrow> (Inr p, s'))"
    if "c \<le> 1024"
  proof -
    from select_bucket [OF that] obtain b where
      b: "b \<in> set buckets" "c \<le> b" "\<forall>b' \<in> set buckets. c \<le> b' \<longrightarrow> b \<le> b'"
      and sel: "(if c \<le> 2 then Inr 2
        else if c \<le> 4 then Inr 4
        else if c \<le> 8 then Inr 8
        else if c \<le> 16 then Inr 16
        else if c \<le> 32 then Inr 32
        else if c \<le> 64 then Inr 64
        else if c \<le> 128 then Inr 128
        else if c \<le> 256 then Inr 256
        else if c \<le> 512 then Inr 512
        else if c \<le> 1024 then Inr 1024
        else Inl (SerialiseError (''String too long ('' @ std_to_string c
                        @ '' characters, max 1024)''))) = Inr b"
      by blast
    have "create_optimal_string str s =
               (case gbln_value_new_str (c_str str) b s of (p, s') \<Rightarrow> (Inr p, s'))"
      unfolding create_optimal_string_def assms sum.case sel ..
    with b show ?thesis by blast
  qed
  show "create_optimal_string str s =
             (Inl (SerialiseError (''String too long ('' @ std_to_string c
                @ '' characters, max 1024)'')), s)"
    if "1024 < c"
    using that by (simp add: create_optimal_string_def assms)
  have "count_chars [] 0 0 = Inr 0"
    by (simp add: count_chars_out)
  then show "create_optimal_string [] s =
           (case gbln_value_new_str [] 2 s of (p, s') \<Rightarrow> (Inr p, s'))"
    by (simp add: create_optimal_string_def c_str_def)
  have "count_chars ''abc'' 0 0 = Inr 3"
    by (simp add: count_chars_ascii byte_def)
  then show "create_optimal_string ''abc'' s =
           (case gbln_value_new_str ''abc'' 4 s of (p, s') \<Rightarrow> (Inr p, s'))"
    by (simp add: create_optimal_string_def c_str_def)
  have "count_chars (replicate 1025 (CHR ''a'')) 0 0 = Inr 1025"
    by (simp add: count_chars_ascii byte_def)
  moreover have "std_to_string 1025 = ''1025''"
    by code_simp
  ultimately show "create_optimal_string (replicate 1025 (CHR ''a'')) s =
           (Inl (SerialiseError ''String too long (1025 characters, max 1024)''), s)"
    by (simp add: create_optimal_string_def)
qed

lemma count_chars_valid:
  assumes "\<forall>j \<in> set (lead_positions str 0). lead_len (byte (str ! j)) \<noteq> None"
  shows "count_chars str 0 0 = Inr (length (lead_positions str 0))"
  using assms by (simp add: count_chars_eq [of str 0 0])

lemma lead_positions_counted:
  assumes "count_chars str 0 0 = Inr c"
  shows "(\<forall>j \<in> set (lead_positions str 0). lead_len (byte (str ! j)) \<noteq> None)
       \<and> length (lead_positions str 0) = c"
  using assms by (simp add: count_chars_eq [of str 0 0] split: if_splits)

lemma create_optimal_string_multibyte:
  shows "create_optimal_string [CHR 0xC3, CHR 0xA9, CHR 0xC3, CHR 0xA9, CHR 0xC3, CHR 0xA9] s =
           (case gbln_value_new_str [CHR 0xC3, CHR 0xA9, CHR 0xC3, CHR 0xA9, CHR 0xC3, CHR 0xA9] 4 s
            of (p, s') \<Rightarrow> (Inr p, s'))"
    and "create_optimal_string [CHR 0xF0, CHR 0x9F, CHR 0x98, CHR 0x80] s =
           (case gbln_value_new_str [CHR 0xF0, CHR 0x9F, CHR 0x98, CHR 0x80] 2 s
            of (p, s') \<Rightarrow> (Inr p, s'))"
    and "create_optimal_string [CHR 0x80] s =
           (Inl (SerialiseError ''Invalid UTF-8 sequence in string''), s)"
proof -
  have "count_chars [CHR 0xC3, CHR 0xA9, CHR 0xC3, CHR 0xA9, CHR 0xC3, CHR 0xA9] 0 0 = Inr 3"
    by code_simp
  then show "create_optimal_string [CHR 0xC3, CHR 0xA9, CHR 0xC3, CHR 0xA9, CHR 0xC3, CHR 0xA9] s =
           (case gbln_value_new_str [CHR 0xC3, CHR 0xA9, CHR 0xC3, CHR 0xA9, CHR 0xC3, CHR 0xA9] 4 s
            of (p, s') \<Rightarrow> (Inr p, s'))"
    by (simp add: create_optimal_string_def c_str_def)
  have "count_chars [CHR 0xF0, CHR 0x9F, CHR 0x98, CHR 0x80] 0 0 = Inr 1"
    by code_simp
  then show "create_optimal_string [CHR 0xF0, CHR 0x9F, CHR 0x98, CHR 0x80] s =
           (case gbln_value_new_str [CHR 0xF0, CHR 0x9F, CHR 0x98, CHR 0x80] 2 s
            of (p, s') \<Rightarrow> (Inr p, s'))"
    by (simp add: create_optimal_string_def c_str_def)
  have "count_chars [CHR 0x80] 0 0 = Inl (SerialiseError ''Invalid UTF-8 sequence in string'')"
    by code_simp
  then show "create_optimal_string [CHR 0x80] s =
           (Inl (SerialiseError ''Invalid UTF-8 sequence in string''), s)"
    by (simp add: create_optimal_string_def)
qed

text \<open>
  C3.  The character count of a string is the number of positions the scan reaches in
  lead-byte position, by the leading-byte patterns of the specification (not the number
  of bytes).  For a string all of whose lead bytes match a pattern: when that count \<open>c\<close> is
  at most 1024, \<open>create_optimal_string\<close> asks the engine for a string of capacity \<open>b\<close>,
  the least bucket of 2, 4, ..., 1024 that is at least \<open>c\<close>; when \<open>c > 1024\<close> it
  fails with the string-too-long error and leaves the engine state untouched (no
  constructor is called).  The empty string gets bucket 2, a 3-character string bucket 4,
  three 2-byte characters (six bytes) bucket 4, one 4-byte character bucket 2, 1025
  characters fail, and the lone byte \<open>0x80\<close> is refused as invalid.
\<close>

theorem create_optimal_string_bucket:
  assumes "\<forall>j \<in> set (lead_positions str 0). lead_len (byte (str ! j)) \<noteq> None"
  shows "(length (lead_positions str 0) \<le> 1024 \<longrightarrow>
           (\<exists>b \<in> set buckets. length (lead_positions str 0) \<le> b
              \<and> (\<forall>b' \<in> set buckets. length (lead_positions str 0) \<le> b' \<longrightarrow> b \<le> b') \<and>
              create_optimal_string str s =
                (case gbln_value_new_str (c_str str) b s of (p, s') \<Rightarrow> (Inr p, s'))))
       \<and> (1024 < length (lead_positions str 0) \<longrightarrow>
           create_optimal_string str s =
             (Inl (SerialiseError (''String too long (''
                @ std_to_string (length (lead_positions str 0))
                @ '' characters, max 1024)'')), s))
       \<and> create_optimal_string [] s =
           (case gbln_value_new_str [] 2 s of (p, s') \<Rightarrow> (Inr p, s'))
       \<and> create_optimal_string ''abc'' s =
           (case gbln_value_new_str ''abc'' 4 s of (p, s') \<Rightarrow> (Inr p, s'))
       \<and> create_optimal_string [CHR 0xC3, CHR 0xA9, CHR 0xC3, CHR 0xA9, CHR 0xC3, CHR 0xA9] s =
           (case gbln_value_new_str [CHR 0xC3, CHR 0xA9, CHR 0xC3, CHR 0xA9, CHR 0xC3, CHR 0xA9] 4 s
            of (p, s') \<Rightarrow> (Inr p, s'))
       \<and> create_optimal_string [CHR 0xF0, CHR 0x9F, CHR 0x98, CHR 0x80] s =
           (case gbln_value_new_str [CHR 0xF0, CHR 0x9F, CHR 0x98, CHR 0x80] 2 s
            of (p, s') \<Rightarrow> (Inr p, s'))
       \<and> create_optimal_string (replicate 1025 (CHR ''a'')) s =
           (Inl (SerialiseError ''String too long (1025 characters, max 1024)''), s)
       \<and> create_optimal_string [CHR 0x80] s =
           (Inl (SerialiseError ''Invalid UTF-8 sequence in string''), s)"
  using create_optimal_string_parts [OF count_chars_valid [OF assms], of s]
    create_optimal_string_multibyte [of s]
  by blast

theorem create_optimal_string_bucket_witness:
  "list_all (\<lambda>j. lead_len (byte ([CHR 0xC3, CHR 0xA9, CHR 0xC3, CHR 0xA9, CHR 0xC3, CHR 0xA9, CHR ''!'', CHR ''!''] ! j)) \<noteq> None)
      (lead_positions [CHR 0xC3, CHR 0xA9, CHR 0xC3, CHR 0xA9, CHR 0xC3, CHR 0xA9, CHR ''!'', CHR ''!''] 0)
   \<and> length (lead_positions [CHR 0xC3, CHR 0xA9, CHR 0xC3, CHR 0xA9, CHR 0xC3, CHR 0xA9, CHR ''!'', CHR ''!''] 0) = 5
   \<and> (5::nat) \<le> 1024 \<and> 8 \<in> set buckets
   \<and> create_optimal_string [CHR 0xC3, CHR 0xA9, CHR 0xC3, CHR 0xA9, CHR 0xC3, CHR 0xA9, CHR ''!'', CHR ''!''] init_state =
       (case gbln_value_new_str [CHR 0xC3, CHR 0xA9, CHR 0xC3, CHR 0xA9, CHR 0xC3, CHR 0xA9, CHR ''!'', CHR ''!''] 8 init_state
        of (p, s') \<Rightarrow> (Inr p, s'))
   \<and> list_all (\<lambda>j. lead_len (byte (replicate 2000 (CHR ''x'') ! j)) \<noteq> None)
         (lead_positions (replicate 2000 (CHR ''x'')) 0)
   \<and> length (lead_positions (replicate 2000 (CHR ''x'')) 0) = 2000 \<and> (1024::nat) < 2000
   \<and> fst (create_optimal_string (replicate 2000 (CHR ''x'')) init_state) =
       Inl (SerialiseError ''String too long (2000 characters, max 1024)'')"
proof -
  let ?e = "[CHR 0xC3, CHR 0xA9, CHR 0xC3, CHR 0xA9, CHR 0xC3, CHR 0xA9, CHR ''!'', CHR ''!'']"
  have "count_chars ?e 0 0 = Inr 5"
    by code_simp
  from lead_positions_counted [OF this]
  have v5: "\<forall>j \<in> set (lead_positions ?e 0). lead_len (byte (?e ! j)) \<noteq> None"
    and l5: "length (lead_positions ?e 0) = 5"
    by blast+
  have "count_chars (replicate 2000 (CHR ''x'')) 0 0 = Inr 2000"
    by (simp add: count_chars_ascii byte_def)
  from lead_positions_counted [OF this]
  have v2000: "\<forall>j \<in> set (lead_positions (replicate 2000 (CHR ''x'')) 0).
         lead_len (byte (replicate 2000 (CHR ''x'') ! j)) \<noteq> None"
    and l2000: "length (lead_positions (replicate 2000 (CHR ''x'')) 0) = 2000"
    by blast+
  have str: "std_to_string 2000 = ''2000''"
    by code_simp
  have cs: "c_str ?e = ?e"
    by code_simp
  from create_optimal_string_bucket [OF v5, of init_state] l5 obtain b where
    b: "b \<in> set buckets" "5 \<le> b" "\<forall>b' \<in> set buckets. 5 \<le> b' \<longrightarrow> b \<le> b'"
    and r: "create_optimal_string ?e init_state =
       (case gbln_value_new_str (c_str ?e) b init_state of (p, s') \<Rightarrow> (Inr p, s'))"
    by auto
  have b8: "8 \<in> set buckets"
    by (simp add: buckets_def)
  with b have "b = 8"
    by (auto simp add: buckets_def)
  with r cs have 1: "create_optimal_string ?e init_state =
       (case gbln_value_new_str ?e 8 init_state of (p, s') \<Rightarrow> (Inr p, s'))"
    by simp
  from create_optimal_string_bucket [OF v2000, of init_state] l2000
  have 2: "fst (create_optimal_string (replicate 2000 (CHR ''x'')) init_state) =
       Inl (SerialiseError ''String too long (2000 characters, max 1024)'')"
    by (simp add: str)
  from v5 l5 b8 1 v2000 l2000 2 show ?thesis
    by (simp add: list_all_iff)
qed

lemma count_chars_parts:
  shows "count_chars str 0 0 =
     (if \<forall>j \<in> set (lead_positions str 0). lead_len (byte (str ! j)) \<noteq> None
      then Inr (length (lead_positions str 0))
      else Inl (SerialiseError ''Invalid UTF-8 sequence in string''))"
  and "(\<exists>s'. create_optimal_string str s =
          (Inl (SerialiseError ''Invalid UTF-8 sequence in string''), s'))
       \<longleftrightarrow> (\<exists>j \<in> set (lead_positions str 0). lead_len (byte (str ! j)) = None)"
  and "length str' = length str \<Longrightarrow> \<forall>j \<in> set (lead_positions str 0). str' ! j = str ! j
       \<Longrightarrow> count_chars str' 0 0 = count_chars str 0 0"
  and "lead_len c =
     (if c < 0x80 then Some 1
      else if c AND 0xE0 = 0xC0 then Some 2
      else if c AND 0xF0 = 0xE0 then Some 3
      else if c AND 0xF8 = 0xF0 then Some 4
      else None)"
proof -
  show eq: "count_chars str 0 0 =
     (if \<forall>j \<in> set (lead_positions str 0). lead_len (byte (str ! j)) \<noteq> None
      then Inr (length (lead_positions str 0))
      else Inl (SerialiseError ''Invalid UTF-8 sequence in string''))"
    by (simp add: count_chars_eq)
  show "(\<exists>s'. create_optimal_string str s =
          (Inl (SerialiseError ''Invalid UTF-8 sequence in string''), s'))
       \<longleftrightarrow> (\<exists>j \<in> set (lead_positions str 0). lead_len (byte (str ! j)) = None)"
  proof (cases "\<forall>j \<in> set (lead_positions str 0). lead_len (byte (str ! j)) \<noteq> None")
    case True
    with eq have "count_chars str 0 0 = Inr (length (lead_positions str 0))"
      by simp
    then have "fst (create_optimal_string str s)
        \<noteq> Inl (SerialiseError ''Invalid UTF-8 sequence in string'')"
      by (simp add: create_optimal_string_def split: prod.splits)
    with True show ?thesis
      by auto
  next
    case False
    with eq have "count_chars str 0 0 = Inl (SerialiseError ''Invalid UTF-8 sequence in string'')"
      by simp
    then have "create_optimal_string str s
        = (Inl (SerialiseError ''Invalid UTF-8 sequence in string''), s)"
      by (simp add: create_optimal_string_def)
    with False show ?thesis
      by auto
  qed
  show "count_chars str' 0 0 = count_chars str 0 0"
    if "length str' = length str" "\<forall>j \<in> set (lead_positions str 0). str' ! j = str ! j"
  proof -
    from that have "lead_positions str' 0 = lead_positions str 0"
      by (rule lead_positions_cong)
    with that(2) show ?thesis
      by (simp add: count_chars_eq [of str'] count_chars_eq [of str])
  qed
  show "lead_len c =
     (if c < 0x80 then Some 1
      else if c AND 0xE0 = 0xC0 then Some 2
      else if c AND 0xF0 = 0xE0 then Some 3
      else if c AND 0xF8 = 0xF0 then Some 4
      else None)"
    by (rule lead_len_code)
qed

text \<open>
  C4.  The count is the number of positions reached in lead-byte position, where a byte
  with top bit 0 advances by 1, \<open>110xxxxx\<close> by 2, \<open>1110xxxx\<close> by 3 and
  \<open>11110xxx\<close> by 4; the scan fails with the invalid-encoding error exactly when a byte
  at such a position matches none of the four patterns; the bytes in between are never
  read: two strings of equal length that agree at the reached positions get the same
  result, so malformed continuation bytes are accepted.
\<close>

theorem count_chars_lead_bytes:
  "count_chars str 0 0 =
     (if \<forall>j \<in> set (lead_positions str 0). lead_len (byte (str ! j)) \<noteq> None
      then Inr (length (lead_positions str 0))
      else Inl (SerialiseError ''Invalid UTF-8 sequence in string''))
   \<and> ((\<exists>s'. create_optimal_string str s =
          (Inl (SerialiseError ''Invalid UTF-8 sequence in string''), s'))
       \<longleftrightarrow> (\<exists>j \<in> set (lead_positions str 0). lead_len (byte (str ! j)) = None))
   \<and> (length str' = length str \<and> (\<forall>j \<in> set (lead_positions str 0). str' ! j = str ! j)
       \<longrightarrow> count_chars str' 0 0 = count_chars str 0 0)
   \<and> lead_len c =
     (if c < 0x80 then Some 1
      else if c AND 0xE0 = 0xC0 then Some 2
      else if c AND 0xF0 = 0xE0 then Some 3
      else if c AND 0xF8 = 0xF0 then Some 4
      else None)"
  using count_chars_parts(1) [of str] count_chars_parts(2) [of str s]
    count_chars_parts(3) [of str' str] count_chars_parts(4) [of c]
  by blast

theorem count_chars_lead_bytes_witness:
  "lead_positions [CHR 0xC3, CHR 0x28] 0 = [0]
   \<and> length [CHR 0xC3, CHR 0xA9] = length [CHR 0xC3, CHR 0x28]
   \<and> count_chars [CHR 0xC3, CHR 0x28] 0 0 = Inr 1
   \<and> count_chars [CHR 0xC3, CHR 0xA9] 0 0 = Inr 1
   \<and> lead_positions [CHR ''a'', CHR 0x80] 0 = [0, 1]
   \<and> lead_len (byte ([CHR ''a'', CHR 0x80] ! 1)) = None
   \<and> fst (create_optimal_string [CHR ''a'', CHR 0x80] init_state) =
       Inl (SerialiseError ''Invalid UTF-8 sequence in string'')"
proof -
  have lp: "lead_positions [CHR 0xC3, CHR 0x28] 0 = [0]"
    by code_simp
  have lp': "lead_positions [CHR ''a'', CHR 0x80] 0 = [0, 1]"
    by code_simp
  have bad: "lead_len (byte ([CHR ''a'', CHR 0x80] ! 1)) = None"
    by code_simp
  have ok: "lead_len (byte (CHR 0xC3)) = Some 2"
    by code_simp
  note good = count_chars_lead_bytes [of "[CHR 0xC3, CHR 0x28]" init_state "[CHR 0xC3, CHR 0xA9]" 0]
  note ill = count_chars_lead_bytes [of "[CHR ''a'', CHR 0x80]" init_state "[]" 0]
  from good [THEN conjunct1] have c1: "count_chars [CHR 0xC3, CHR 0x28] 0 0 = Inr 1"
    by (simp add: lp ok)
  from good [THEN conjunct2, THEN conjunct2, THEN conjunct1]
  have c2: "count_chars [CHR 0xC3, CHR 0xA9] 0 0 = Inr 1"
    by (simp add: lp c1)
  from ill [THEN conjunct2, THEN conjunct1] bad
  obtain s' where "create_optimal_string [CHR ''a'', CHR 0x80] init_state =
       (Inl (SerialiseError ''Invalid UTF-8 sequence in string''), s')"
    by (auto simp add: lp')
  then have "fst (create_optimal_string [CHR ''a'', CHR 0x80] init_state) =
       Inl (SerialiseError ''Invalid UTF-8 sequence in string'')"
    by simp
  with lp lp' bad c1 c2 show ?thesis
    by simp
qed

section \<open>Properties of the scoped handles\<close>

lemma scoped_handle_parts:
  shows "ManagedValue_new None = Inl (InvalidArgument ''Cannot create ManagedValue from null pointer'')"
    and "ManagedString_new None = Inl (InvalidArgument ''Cannot create ManagedString from null pointer'')"
    and "ManagedConfig_new None = Inl (InvalidArgument ''Cannot create ManagedConfig from null pointer'')"
    and "0 < count \<Longrightarrow> ManagedKeys_new None count = Inl (InvalidArgument ''Null keys with non-zero count'')"
    and "ManagedKeys_new None 0 = Inr \<lparr>mk_keys = None, mk_count = 0\<rparr>"
    and "ManagedKeys_delete \<lparr>mk_keys = None, mk_count = 0\<rparr> s = s"
  by (simp_all add: ManagedValue_new_def ManagedString_new_def ManagedConfig_new_def
      ManagedKeys_new_def ManagedKeys_delete_def)

text \<open>
  C7 (as the code has it).  Constructing a \<open>ManagedValue\<close>, \<open>ManagedString\<close> or
  \<open>ManagedConfig\<close> from a null pointer fails at construction with
  \<open>std::invalid_argument\<close>.  Constructing a \<open>ManagedKeys\<close> from null keys fails for
  every count greater than 0; with count 0 it succeeds and yields an empty key list whose
  destructor frees nothing.
\<close>

theorem scoped_handle_null:
  "ManagedValue_new None = Inl (InvalidArgument ''Cannot create ManagedValue from null pointer'')
   \<and> ManagedString_new None = Inl (InvalidArgument ''Cannot create ManagedString from null pointer'')
   \<and> ManagedConfig_new None = Inl (InvalidArgument ''Cannot create ManagedConfig from null pointer'')
   \<and> (0 < count \<longrightarrow>
        ManagedKeys_new None count = Inl (InvalidArgument ''Null keys with non-zero count''))
   \<and> ManagedKeys_new None 0 = Inr \<lparr>mk_keys = None, mk_count = 0\<rparr>
   \<and> ManagedKeys_delete \<lparr>mk_keys = None, mk_count = 0\<rparr> s = s"
  using scoped_handle_parts(1-3) scoped_handle_parts(4) [of count] scoped_handle_parts(5)
    scoped_handle_parts(6) [of s]
  by blast

theorem scoped_handle_null_witness:
  "(0::nat) < 3 \<and> ManagedKeys_new None 3 = Inl (InvalidArgument ''Null keys with non-zero count'')"
  using scoped_handle_null [of 3] by simp

text \<open>
  C7 as stated asks the key-list kind to fail on null keys for every count.  With count 0
  the guard \<open>!keys && count > 0\<close> does not fire and the construction succeeds.
\<close>

theorem ManagedKeys_null_empty_counterexample:
  "ManagedKeys_new None 0 = Inr \<lparr>mk_keys = None, mk_count = 0\<rparr>"
  by (simp add: ManagedKeys_new_def)

section \<open>Properties of the entry points\<close>

text \<open>
  C9.  When the compression level is outside 0..9 or the indent outside 0..16,
  \<open>write_io\<close> fails with a \<open>ValidationError\<close> and returns the engine state it was
  given: no value was converted, no configuration created, nothing written.
\<close>

theorem write_io_validates_first:
  assumes "sint (compression_level config) < 0 \<or> 9 < sint (compression_level config)
           \<or> sint (indent config) < 0 \<or> 16 < sint (indent config)"
  shows "\<exists>msg. write_io val path_str config s = (Inl (ValidationError msg), s)"
proof -
  from assms have "\<exists>msg. validate config = Inl (ValidationError msg)"
    by (auto simp add: validate_def word_sless_alt)
  then show ?thesis
    by (auto simp add: write_io_def)
qed

theorem write_io_validates_first_witness:
  "9 < sint (compression_level (io_default\<lparr>compression_level := 10\<rparr>))
   \<and> write_io (VInt 1) ''out.io.gbln.xz'' (io_default\<lparr>compression_level := 10\<rparr>) init_state
       = (Inl (ValidationError ''Compression level must be 0-9, got: 10''), init_state)
   \<and> sint (indent (io_default\<lparr>indent := - 1\<rparr>)) < 0
   \<and> write_io (VInt 1) ''out.io.gbln.xz'' (io_default\<lparr>indent := - 1\<rparr>) init_state
       = (Inl (ValidationError ''Indent must be 0-16, got: -1''), init_state)"
proof -
  have a: "9 < sint (compression_level (io_default\<lparr>compression_level := 10\<rparr>))"
    by simp
  have b: "sint (indent (io_default\<lparr>indent := - 1\<rparr>)) < 0"
    by simp
  have s10: "std_to_string 10 = ''10''" and s1: "std_to_string (Suc 0) = ''1''"
    by code_simp+
  from write_io_validates_first [of "io_default\<lparr>compression_level := 10\<rparr>" "VInt 1"
      "''out.io.gbln.xz''" init_state] a
  obtain m1 where m1: "write_io (VInt 1) ''out.io.gbln.xz'' (io_default\<lparr>compression_level := 10\<rparr>) init_state
       = (Inl (ValidationError m1), init_state)"
    by auto
  from write_io_validates_first [of "io_default\<lparr>indent := - 1\<rparr>" "VInt 1"
      "''out.io.gbln.xz''" init_state] b
  obtain m2 where m2: "write_io (VInt 1) ''out.io.gbln.xz'' (io_default\<lparr>indent := - 1\<rparr>) init_state
       = (Inl (ValidationError m2), init_state)"
    by auto
  have "validate (io_default\<lparr>compression_level := 10\<rparr>)
      = Inl (ValidationError ''Compression level must be 0-9, got: 10'')"
    by (simp add: validate_def io_default_def word_sless_alt std_to_string_int_def s10)
  with m1 have "m1 = ''Compression level must be 0-9, got: 10''"
    by (simp add: write_io_def)
  moreover have "validate (io_default\<lparr>indent := - 1\<rparr>)
      = Inl (ValidationError ''Indent must be 0-16, got: -1'')"
    by (simp add: validate_def io_default_def word_sless_alt std_to_string_int_def s1)
  with m2 have "m2 = ''Indent must be 0-16, got: -1''"
    by (simp add: write_io_def)
  ultimately show ?thesis
    using a b m1 m2 by simp
qed

text \<open>
  C10.  \<open>to_string_pretty\<close> does not look at its indent argument: for all indents the
  result is that of \<open>to_string\<close> with \<open>mini = false\<close>.
\<close>

theorem to_string_pretty_ignores_indent:
  "to_string_pretty compact pretty v i s = to_string_pretty compact pretty v j s
   \<and> to_string_pretty compact pretty v i s = to_string compact pretty v False s"
  by (simp add: to_string_pretty_def)

section \<open>Properties of the conversion to foreign handles\<close>

subsection \<open>What the engine's operations change\<close>

lemma next_reply_frame:
  "next_reply s = (code, s1) \<Longrightarrow>
     store s1 = store s \<and> next_addr s1 = next_addr s \<and> released s1 = released s
     \<and> written s1 = written s"
  by (auto simp add: next_reply_def split: list.splits prod.splits if_splits)

lemma next_reply_quiet: "script s = [] \<Longrightarrow> next_reply s = (Ok, s)"
  by (simp add: next_reply_def)

lemma next_reply_Ok: "next_reply s = (Ok, s1) \<Longrightarrow> last_error s1 = last_error s"
  by (auto simp add: next_reply_def split: list.splits prod.splits if_splits)

lemma new_value_None:
  "new_value v s = (None, s1) \<Longrightarrow>
     store s1 = store s \<and> next_addr s1 = next_addr s \<and> released s1 = released s
     \<and> written s1 = written s"
  by (auto simp add: new_value_def alloc_def dest: next_reply_frame split: prod.splits if_splits)

lemma new_value_Some:
  "new_value v s = (Some c, s1) \<Longrightarrow>
     c = next_addr s \<and> store s1 = (store s)(c \<mapsto> ResValue v)
     \<and> next_addr s1 = Suc (next_addr s) \<and> released s1 = released s
     \<and> written s1 = written s \<and> last_error s1 = last_error s"
  by (auto simp add: new_value_def alloc_def dest: next_reply_frame next_reply_Ok
      split: prod.splits if_splits)

lemma new_value_quiet:
  "script s = [] \<Longrightarrow>
     new_value v s = (Some (next_addr s),
       s\<lparr>store := (store s)(next_addr s \<mapsto> ResValue v), next_addr := Suc (next_addr s)\<rparr>)"
  by (simp add: new_value_def next_reply_quiet alloc_def)

lemma create_optimal_int_tree: "create_optimal_int v s = new_value (optimal_int_tree v) s"
  by (simp add: create_optimal_int_def optimal_int_tree_def gbln_value_new_u8_def
      gbln_value_new_u16_def gbln_value_new_u32_def gbln_value_new_u64_def gbln_value_new_i8_def
      gbln_value_new_i16_def gbln_value_new_i32_def gbln_value_new_i64_def)

lemma bucket_of_cases:
  "bucket_of c =
     (if c \<le> 2 then 2 else if c \<le> 4 then 4 else if c \<le> 8 then 8 else if c \<le> 16 then 16
      else if c \<le> 32 then 32 else if c \<le> 64 then 64 else if c \<le> 128 then 128
      else if c \<le> 256 then 256 else if c \<le> 512 then 512 else if c \<le> 1024 then 1024 else 0)"
  by (simp add: bucket_of_def buckets_def)

lemma create_optimal_string_tree:
  "create_optimal_string str s = (Inr p, s1) \<Longrightarrow>
     new_value (FStr (c_str str) (bucket_of (char_count str))) s = (p, s1)"
  by (auto simp add: create_optimal_string_def char_count_def bucket_of_cases gbln_value_new_str_def
      split: sum.splits prod.splits if_splits)

lemma create_optimal_string_ok:
  "count_chars str 0 0 = Inr c \<Longrightarrow> c \<le> 1024 \<Longrightarrow>
     create_optimal_string str s =
       (case new_value (FStr (c_str str) (bucket_of (char_count str))) s of (p, s1) \<Rightarrow> (Inr p, s1))"
  by (auto simp add: create_optimal_string_def char_count_def bucket_of_cases gbln_value_new_str_def
      split: sum.splits prod.splits if_splits)

lemma gbln_object_insert_Ok:
  assumes "gbln_object_insert obj key child s = (Ok, s2)"
  shows "\<exists>ob c kvs v. obj = Some ob \<and> child = Some c \<and> ob \<noteq> c
       \<and> store s ob = Some (ResValue (FObject kvs)) \<and> store s c = Some (ResValue v)
       \<and> key \<notin> set (map fst kvs)
       \<and> store s2 = (store s)(ob \<mapsto> ResValue (FObject (kvs @ [(key, v)])), c := None)
       \<and> next_addr s2 = next_addr s \<and> released s2 = released s \<and> written s2 = written s
       \<and> last_error s2 = last_error s"
proof -
  obtain code s1 where nr: "next_reply s = (code, s1)"
    by (cases "next_reply s")
  from assms nr have "code = Ok"
    by (auto simp add: gbln_object_insert_def split: if_splits)
  with nr next_reply_frame [OF nr] next_reply_Ok [of s s1] assms show ?thesis
    by (auto simp add: gbln_object_insert_def
        split: prod.splits if_splits option.splits resource.splits GblnValue.splits)
qed

lemma gbln_object_insert_fail:
  "gbln_object_insert obj key child s = (err, s2) \<Longrightarrow> err \<noteq> Ok \<Longrightarrow>
     store s2 = store s \<and> next_addr s2 = next_addr s \<and> released s2 = released s
     \<and> written s2 = written s"
  by (auto simp add: gbln_object_insert_def dest: next_reply_frame
      split: prod.splits if_splits option.splits resource.splits GblnValue.splits)

lemma gbln_array_push_Ok:
  assumes "gbln_array_push arr child s = (Ok, s2)"
  shows "\<exists>a c xs v. arr = Some a \<and> child = Some c \<and> a \<noteq> c
       \<and> store s a = Some (ResValue (FArray xs)) \<and> store s c = Some (ResValue v)
       \<and> store s2 = (store s)(a \<mapsto> ResValue (FArray (xs @ [v])), c := None)
       \<and> next_addr s2 = next_addr s \<and> released s2 = released s \<and> written s2 = written s
       \<and> last_error s2 = last_error s"
proof -
  obtain code s1 where nr: "next_reply s = (code, s1)"
    by (cases "next_reply s")
  from assms nr have "code = Ok"
    by (auto simp add: gbln_array_push_def split: if_splits)
  with nr next_reply_frame [OF nr] next_reply_Ok [of s s1] assms show ?thesis
    by (auto simp add: gbln_array_push_def
        split: prod.splits if_splits option.splits resource.splits GblnValue.splits)
qed

lemma gbln_array_push_fail:
  "gbln_array_push arr child s = (err, s2) \<Longrightarrow> err \<noteq> Ok \<Longrightarrow>
     store s2 = store s \<and> next_addr s2 = next_addr s \<and> released s2 = released s
     \<and> written s2 = written s"
  by (auto simp add: gbln_array_push_def dest: next_reply_frame
      split: prod.splits if_splits option.splits resource.splits GblnValue.splits)

subsection \<open>A successful conversion\<close>

text \<open>
  From a well-formed state, a conversion that returns a handle returns the next address,
  leaves the tree \<open>foreign_tree V\<close> there, frees nothing and leaves no other new
  resource behind: the children it created have all been moved into their containers.
\<close>

lemma wf_state_alloc:
  "wf_state s \<Longrightarrow> store s1 = (store s)(next_addr s \<mapsto> r) \<Longrightarrow> next_addr s < next_addr s1
     \<Longrightarrow> released s1 = released s \<Longrightarrow> wf_state s1"
  by (auto simp add: wf_state_def)

lemma wf_state_same:
  "wf_state s \<Longrightarrow> store s1 = store s \<Longrightarrow> next_addr s \<le> next_addr s1
     \<Longrightarrow> released s1 = released s \<Longrightarrow> wf_state s1"
  by (fastforce simp add: wf_state_def)

lemma wf_state_update:
  "wf_state s \<Longrightarrow> store s a \<noteq> None \<Longrightarrow> store s1 = (store s)(a \<mapsto> r)
     \<Longrightarrow> next_addr s \<le> next_addr s1 \<Longrightarrow> released s1 = released s \<Longrightarrow> wf_state s1"
  by (fastforce simp add: wf_state_def)

lemma wf_state_fresh: "wf_state s \<Longrightarrow> next_addr s \<le> a \<Longrightarrow> store s a = None"
  by (fastforce simp add: wf_state_def)

lemma wf_state_live: "wf_state s \<Longrightarrow> store s a = Some r \<Longrightarrow> a < next_addr s"
  by (fastforce simp add: wf_state_def)

lemma scalar_success:
  assumes "wf_state s" "new_value v s = (p, s')"
  shows "wf_state s' \<and> released s' = released s \<and> written s' = written s
     \<and> ((p = None \<longrightarrow> store s' = store s \<and> next_addr s' = next_addr s)
             \<and> (p \<noteq> None \<longrightarrow> p = Some (next_addr s) \<and> next_addr s < next_addr s'
                 \<and> store s' = (store s)(next_addr s \<mapsto> ResValue v)))"
proof (cases p)
  case None
  with assms(2) have "store s' = store s \<and> next_addr s' = next_addr s
      \<and> released s' = released s \<and> written s' = written s"
    by (auto dest: new_value_None)
  with assms(1) None show ?thesis
    by (auto intro: wf_state_same)
next
  case (Some c)
  with assms(2) have *: "c = next_addr s" "store s' = (store s)(c \<mapsto> ResValue v)"
    "next_addr s' = Suc (next_addr s)" "released s' = released s" "written s' = written s"
    by (auto dest: new_value_Some)
  with assms(1) have "wf_state s'"
    by (auto intro: wf_state_alloc)
  with * Some show ?thesis
    by simp
qed

lemma cpp_to_ffi_success:
  shows "wf_state s \<Longrightarrow> cpp_to_ffi V s = (Inr p, s') \<Longrightarrow>
           wf_state s' \<and> released s' = released s \<and> written s' = written s
           \<and> (p = None \<longrightarrow> store s' = store s \<and> next_addr s' = next_addr s)
           \<and> (p \<noteq> None \<longrightarrow> p = Some (next_addr s) \<and> next_addr s < next_addr s'
                 \<and> store s' = (store s)(next_addr s \<mapsto> ResValue (foreign_tree V)))"
    and "wf_state s \<Longrightarrow> obj = Some ob \<Longrightarrow> store s ob = Some (ResValue (FObject acc))
           \<Longrightarrow> object_entries obj kvs s = (Inr (), s') \<Longrightarrow>
           wf_state s' \<and> released s' = released s \<and> written s' = written s
           \<and> next_addr s \<le> next_addr s'
           \<and> store s' = (store s)(ob \<mapsto> ResValue (FObject
                 (acc @ map (\<lambda>(k, v). (c_str k, foreign_tree v)) kvs)))"
    and "wf_state s \<Longrightarrow> arr = Some ar \<Longrightarrow> store s ar = Some (ResValue (FArray xacc))
           \<Longrightarrow> array_elements arr xs s = (Inr (), s') \<Longrightarrow>
           wf_state s' \<and> released s' = released s \<and> written s' = written s
           \<and> next_addr s \<le> next_addr s'
           \<and> store s' = (store s)(ar \<mapsto> ResValue (FArray (xacc @ map foreign_tree xs)))"
proof (induction V s and obj kvs s and arr xs s arbitrary: p s' and ob acc s' and ar xacc s'
    rule: cpp_to_ffi_object_entries_array_elements.induct)
  case (1 s)
  from 1(2) have "new_value FNull s = (p, s')"
    by (simp add: gbln_value_new_null_def split: prod.splits)
  from scalar_success [OF 1(1) this] show ?case
    by auto
next
  case (2 arg s)
  from 2(2) have "new_value (FBool arg) s = (p, s')"
    by (simp add: gbln_value_new_bool_def split: prod.splits)
  from scalar_success [OF 2(1) this] show ?case
    by auto
next
  case (3 arg s)
  from 3(2) have "new_value (optimal_int_tree arg) s = (p, s')"
    by (simp add: create_optimal_int_tree split: prod.splits)
  from scalar_success [OF 3(1) this] show ?case
    by auto
next
  case (4 arg s)
  from 4(2) have "new_value (FF64 arg) s = (p, s')"
    by (simp add: gbln_value_new_f64_def split: prod.splits)
  from scalar_success [OF 4(1) this] show ?case
    by auto
next
  case (5 arg s)
  from 5(2) have "new_value (FStr (c_str arg) (bucket_of (char_count arg))) s = (p, s')"
    by (simp add: create_optimal_string_tree)
  from scalar_success [OF 5(1) this] show ?case
    by auto
next
  case (6 arg s)
  note wf = 6(2) and run = 6(3)
  obtain obj s1 where new: "gbln_value_new_object s = (obj, s1)"
    by (cases "gbln_value_new_object s")
  with run have nn: "obj \<noteq> None"
    by (auto split: if_splits)
  then obtain ob where ob: "obj = Some ob"
    by auto
  from new ob have nv: "new_value (FObject []) s = (Some ob, s1)"
    by (simp add: gbln_value_new_object_def)
  from scalar_success [OF wf nv]
  have s1: "wf_state s1" "released s1 = released s" "written s1 = written s"
    "ob = next_addr s" "next_addr s < next_addr s1"
    "store s1 = (store s)(ob \<mapsto> ResValue (FObject []))"
    by simp_all
  from run new nn have loop: "object_entries obj arg s1 = (Inr (), s')" and p: "p = obj"
    by (auto split: prod.splits sum.splits)
  from s1(6) have live1: "store s1 ob = Some (ResValue (FObject []))"
    by simp
  from 6(1) [OF new [symmetric] nn s1(1) ob live1 loop]
  have "wf_state s'" "released s' = released s1" "written s' = written s1"
    "next_addr s1 \<le> next_addr s'"
    "store s' = (store s1)(ob \<mapsto> ResValue (FObject
                 ([] @ map (\<lambda>(k, v). (c_str k, foreign_tree v)) arg)))"
    by blast+
  with s1 p ob show ?case
    by simp
next
  case (7 arg s)
  note wf = 7(2) and run = 7(3)
  obtain arr s1 where new: "gbln_value_new_array s = (arr, s1)"
    by (cases "gbln_value_new_array s")
  with run have nn: "arr \<noteq> None"
    by (auto split: if_splits)
  then obtain ar where ar: "arr = Some ar"
    by auto
  from new ar have nv: "new_value (FArray []) s = (Some ar, s1)"
    by (simp add: gbln_value_new_array_def)
  from scalar_success [OF wf nv]
  have s1: "wf_state s1" "released s1 = released s" "written s1 = written s"
    "ar = next_addr s" "next_addr s < next_addr s1"
    "store s1 = (store s)(ar \<mapsto> ResValue (FArray []))"
    by simp_all
  from run new nn have loop: "array_elements arr arg s1 = (Inr (), s')" and p: "p = arr"
    by (auto split: prod.splits sum.splits)
  from s1(6) have live1: "store s1 ar = Some (ResValue (FArray []))"
    by simp
  from 7(1) [OF new [symmetric] nn s1(1) ar live1 loop]
  have "wf_state s'" "released s' = released s1" "written s' = written s1"
    "next_addr s1 \<le> next_addr s'"
    "store s' = (store s1)(ar \<mapsto> ResValue (FArray ([] @ map foreign_tree arg)))"
    by blast+
  with s1 p ar show ?case
    by simp
next
  case (8 obj s)
  then show ?case
    by (auto simp add: fun_upd_idem)
next
  case (9 obj key val rest s)
  note wf = 9(3) and ob = 9(4) and live = 9(5) and run = 9(6)
  obtain r1 s1 where conv: "cpp_to_ffi val s = (r1, s1)"
    by (cases "cpp_to_ffi val s")
  with run obtain child where r1: "r1 = Inr child"
    by (cases r1) auto
  obtain err s2 where ins: "gbln_object_insert obj (c_str key) child s1 = (err, s2)"
    by (cases "gbln_object_insert obj (c_str key) child s1")
  with run conv r1 have err: "err = Ok" and rest: "object_entries obj rest s2 = (Inr (), s')"
    by (auto split: if_splits)
  from gbln_object_insert_Ok [OF ins [unfolded err]] ob obtain c kvs0 v where
    c: "child = Some c" "ob \<noteq> c" "store s1 ob = Some (ResValue (FObject kvs0))"
      "store s1 c = Some (ResValue v)"
      "store s2 = (store s1)(ob \<mapsto> ResValue (FObject (kvs0 @ [(c_str key, v)])), c := None)"
      "next_addr s2 = next_addr s1" "released s2 = released s1" "written s2 = written s1"
    by auto
  note IH = 9(1) [OF wf conv [unfolded r1]]
  from IH c(1) have s1a: "wf_state s1" "released s1 = released s" "written s1 = written s"
    "c = next_addr s" "next_addr s < next_addr s1"
    by simp_all
  from IH c(1) have "store s1 = (store s)(next_addr s \<mapsto> ResValue (foreign_tree val))"
    by blast
  with s1a have s1: "wf_state s1" "released s1 = released s" "written s1 = written s"
    "c = next_addr s" "next_addr s < next_addr s1"
    "store s1 = (store s)(c \<mapsto> ResValue (foreign_tree val))"
    by simp_all
  from wf s1(4) have fresh: "store s c = None"
    by (simp add: wf_state_fresh)
  from c(3,4) s1(6) c(2) live have kvs0: "kvs0 = acc" and v: "v = foreign_tree val"
    by simp_all
  have st2: "store s2 = (store s)(ob \<mapsto> ResValue (FObject (acc @ [(c_str key, foreign_tree val)])))"
    using c(5) s1(6) c(2) fresh kvs0 v by (auto simp add: fun_eq_iff)
  have wf2: "wf_state s2"
    using wf _ st2 by (rule wf_state_update) (use c s1 live in auto)
  have live2: "store s2 ob = Some (ResValue (FObject (acc @ [(c_str key, foreign_tree val)])))"
    using st2 by simp
  have nok: "\<not> err \<noteq> Ok"
    using err by simp
  from 9(2) [OF conv [symmetric] r1 ins [symmetric] nok wf2 ob live2 rest]
  have "wf_state s'" "released s' = released s2" "written s' = written s2"
    "next_addr s2 \<le> next_addr s'"
    "store s' = (store s2)(ob \<mapsto> ResValue (FObject
                 ((acc @ [(c_str key, foreign_tree val)])
                    @ map (\<lambda>(k, v). (c_str k, foreign_tree v)) rest)))"
    by blast+
  with st2 c s1 show ?case
    by simp
next
  case (10 arr s)
  then show ?case
    by (auto simp add: fun_upd_idem)
next
  case (11 arr elem rest s)
  note wf = 11(3) and ar = 11(4) and live = 11(5) and run = 11(6)
  obtain r1 s1 where conv: "cpp_to_ffi elem s = (r1, s1)"
    by (cases "cpp_to_ffi elem s")
  with run obtain child where r1: "r1 = Inr child"
    by (cases r1) auto
  obtain err s2 where ins: "gbln_array_push arr child s1 = (err, s2)"
    by (cases "gbln_array_push arr child s1")
  with run conv r1 have err: "err = Ok" and rest: "array_elements arr rest s2 = (Inr (), s')"
    by (auto split: if_splits)
  from gbln_array_push_Ok [OF ins [unfolded err]] ar obtain c xs0 v where
    c: "child = Some c" "ar \<noteq> c" "store s1 ar = Some (ResValue (FArray xs0))"
      "store s1 c = Some (ResValue v)"
      "store s2 = (store s1)(ar \<mapsto> ResValue (FArray (xs0 @ [v])), c := None)"
      "next_addr s2 = next_addr s1" "released s2 = released s1" "written s2 = written s1"
    by auto
  note IH = 11(1) [OF wf conv [unfolded r1]]
  from IH c(1) have s1a: "wf_state s1" "released s1 = released s" "written s1 = written s"
    "c = next_addr s" "next_addr s < next_addr s1"
    by simp_all
  from IH c(1) have "store s1 = (store s)(next_addr s \<mapsto> ResValue (foreign_tree elem))"
    by blast
  with s1a have s1: "wf_state s1" "released s1 = released s" "written s1 = written s"
    "c = next_addr s" "next_addr s < next_addr s1"
    "store s1 = (store s)(c \<mapsto> ResValue (foreign_tree elem))"
    by simp_all
  from wf s1(4) have fresh: "store s c = None"
    by (simp add: wf_state_fresh)
  from c(3,4) s1(6) c(2) live have xs0: "xs0 = xacc" and v: "v = foreign_tree elem"
    by simp_all
  have st2: "store s2 = (store s)(ar \<mapsto> ResValue (FArray (xacc @ [foreign_tree elem])))"
    using c(5) s1(6) c(2) fresh xs0 v by (auto simp add: fun_eq_iff)
  have wf2: "wf_state s2"
    using wf _ st2 by (rule wf_state_update) (use c s1 live in auto)
  have live2: "store s2 ar = Some (ResValue (FArray (xacc @ [foreign_tree elem])))"
    using st2 by simp
  have nok: "\<not> err \<noteq> Ok"
    using err by simp
  from 11(2) [OF conv [symmetric] r1 ins [symmetric] nok wf2 ar live2 rest]
  have "wf_state s'" "released s' = released s2" "written s' = written s2"
    "next_addr s2 \<le> next_addr s'"
    "store s' = (store s2)(ar \<mapsto> ResValue (FArray
                 ((xacc @ [foreign_tree elem]) @ map foreign_tree rest)))"
    by blast+
  with st2 c s1 show ?case
    by simp
qed

subsection \<open>A refused insert or push\<close>

lemma release_both:
  assumes "wf_state s" "store s ob = Some r" "released s2 = released s"
    and "child = None \<or> child = Some (next_addr s)"
  shows "released (gbln_value_free (Some ob) (gbln_value_free child s2))
           = released s @ (case child of None \<Rightarrow> [] | Some c \<Rightarrow> [c]) @ [ob]"
    and "count_list (released (gbln_value_free (Some ob) (gbln_value_free child s2))) ob = 1"
    and "store (gbln_value_free (Some ob) (gbln_value_free child s2)) ob = None"
    and "\<forall>c. child = Some c \<longrightarrow>
           count_list (released (gbln_value_free (Some ob) (gbln_value_free child s2))) c = 1
           \<and> store (gbln_value_free (Some ob) (gbln_value_free child s2)) c = None"
proof -
  from assms(1,2) have old: "ob < next_addr s" and nr: "ob \<notin> set (released s)"
    by (auto simp add: wf_state_def)
  from assms(1) have nn: "next_addr s \<notin> set (released s)"
    by (auto simp add: wf_state_def)
  show "released (gbln_value_free (Some ob) (gbln_value_free child s2))
           = released s @ (case child of None \<Rightarrow> [] | Some c \<Rightarrow> [c]) @ [ob]"
    using assms(3) by (simp add: gbln_value_free_def release_def split: option.splits)
  show "count_list (released (gbln_value_free (Some ob) (gbln_value_free child s2))) ob = 1"
    using assms(3,4) old nr
    by (auto simp add: gbln_value_free_def release_def count_list_0_iff split: option.splits)
  show "store (gbln_value_free (Some ob) (gbln_value_free child s2)) ob = None"
    by (simp add: gbln_value_free_def release_def split: option.splits)
  show "\<forall>c. child = Some c \<longrightarrow>
           count_list (released (gbln_value_free (Some ob) (gbln_value_free child s2))) c = 1
           \<and> store (gbln_value_free (Some ob) (gbln_value_free child s2)) c = None"
    using assms(3,4) old nn
    by (auto simp add: gbln_value_free_def release_def count_list_0_iff split: option.splits)
qed

lemmas engine_defs =
  init_state_def next_reply_def alloc_def release_def new_value_def
  gbln_value_free_def gbln_value_new_u8_def gbln_value_new_object_def gbln_value_new_array_def
  gbln_object_insert_def gbln_array_push_def

lemma int1: "create_optimal_int 1 s = gbln_value_new_u8 1 s"
  by (simp add: create_optimal_int_def word_sle_eq)

lemma bad_string: "create_optimal_string [CHR 0x80] s
    = (Inl (SerialiseError ''Invalid UTF-8 sequence in string''), s)"
proof -
  have "count_chars [CHR 0x80] 0 0 = Inl (SerialiseError ''Invalid UTF-8 sequence in string'')"
    by code_simp
  then show ?thesis
    by (simp add: create_optimal_string_def)
qed

lemma int7: "create_optimal_int 7 s = gbln_value_new_u8 7 s"
  by (simp add: create_optimal_int_def word_sle_eq)

text \<open>
  C5.  Take the iteration of the object loop or of the array loop in which the child has
  been converted to the handle \<open>child\<close>.  When \<open>gbln_object_insert\<close> (or
  \<open>gbln_array_push\<close>) returns a code other than \<open>Ok\<close>, the loop fails with a
  \<open>SerialiseError\<close>, and in the state it leaves the child and the container have each
  been freed exactly once and are no longer live.  When the code is \<open>Ok\<close>, the loop goes
  on with the next entry, nothing has been freed, the container is live and the child is
  no longer a resource of its own.
\<close>

theorem insert_failure_releases_both:
  assumes wf: "wf_state s"
    and live: "store s ob = Some r"
    and conv: "cpp_to_ffi val s = (Inr child, s1)"
  shows "(gbln_object_insert (Some ob) (c_str key) child s1 = (err, s2) \<longrightarrow>
          (if err \<noteq> Ok then
             (\<exists>s3. object_entries (Some ob) ((key, val) # rest) s
                     = (Inl (SerialiseError (''Failed to insert object key: '' @ key)), s3)
                \<and> released s3 = released s @ (case child of None \<Rightarrow> [] | Some c \<Rightarrow> [c]) @ [ob]
                \<and> count_list (released s3) ob = 1 \<and> store s3 ob = None
                \<and> (\<forall>c. child = Some c \<longrightarrow> count_list (released s3) c = 1 \<and> store s3 c = None))
           else object_entries (Some ob) ((key, val) # rest) s = object_entries (Some ob) rest s2
                \<and> released s2 = released s \<and> store s2 ob \<noteq> None
                \<and> (\<forall>c. child = Some c \<longrightarrow> store s2 c = None)))
       \<and> (gbln_array_push (Some ob) child s1 = (err, s2) \<longrightarrow>
          (if err \<noteq> Ok then
             (\<exists>s3. array_elements (Some ob) (val # elems) s
                     = (Inl (SerialiseError ''Failed to push array element''), s3)
                \<and> released s3 = released s @ (case child of None \<Rightarrow> [] | Some c \<Rightarrow> [c]) @ [ob]
                \<and> count_list (released s3) ob = 1 \<and> store s3 ob = None
                \<and> (\<forall>c. child = Some c \<longrightarrow> count_list (released s3) c = 1 \<and> store s3 c = None))
           else array_elements (Some ob) (val # elems) s = array_elements (Some ob) elems s2
                \<and> released s2 = released s \<and> store s2 ob \<noteq> None
                \<and> (\<forall>c. child = Some c \<longrightarrow> store s2 c = None)))"
proof -
  from cpp_to_ffi_success(1) [OF wf conv]
  have s1: "released s1 = released s" and child: "child = None \<or> child = Some (next_addr s)"
    by auto
  show ?thesis
  proof (intro conjI impI)
    assume run: "gbln_object_insert (Some ob) (c_str key) child s1 = (err, s2)"
    show "if err \<noteq> Ok then
             (\<exists>s3. object_entries (Some ob) ((key, val) # rest) s
                     = (Inl (SerialiseError (''Failed to insert object key: '' @ key)), s3)
                \<and> released s3 = released s @ (case child of None \<Rightarrow> [] | Some c \<Rightarrow> [c]) @ [ob]
                \<and> count_list (released s3) ob = 1 \<and> store s3 ob = None
                \<and> (\<forall>c. child = Some c \<longrightarrow> count_list (released s3) c = 1 \<and> store s3 c = None))
           else object_entries (Some ob) ((key, val) # rest) s = object_entries (Some ob) rest s2
                \<and> released s2 = released s \<and> store s2 ob \<noteq> None
                \<and> (\<forall>c. child = Some c \<longrightarrow> store s2 c = None)"
    proof (cases "err = Ok")
      case True
      from gbln_object_insert_Ok [OF run [unfolded True]] s1 True conv run show ?thesis
        by auto
    next
      case False
      from gbln_object_insert_fail [OF run False] s1 have "released s2 = released s"
        by simp
      from release_both [OF wf live this child] False conv run show ?thesis
        by simp
    qed
  next
    assume run: "gbln_array_push (Some ob) child s1 = (err, s2)"
    show "if err \<noteq> Ok then
             (\<exists>s3. array_elements (Some ob) (val # elems) s
                     = (Inl (SerialiseError ''Failed to push array element''), s3)
                \<and> released s3 = released s @ (case child of None \<Rightarrow> [] | Some c \<Rightarrow> [c]) @ [ob]
                \<and> count_list (released s3) ob = 1 \<and> store s3 ob = None
                \<and> (\<forall>c. child = Some c \<longrightarrow> count_list (released s3) c = 1 \<and> store s3 c = None))
           else array_elements (Some ob) (val # elems) s = array_elements (Some ob) elems s2
                \<and> released s2 = released s \<and> store s2 ob \<noteq> None
                \<and> (\<forall>c. child = Some c \<longrightarrow> store s2 c = None)"
    proof (cases "err = Ok")
      case True
      from gbln_array_push_Ok [OF run [unfolded True]] s1 True conv run show ?thesis
        by auto
    next
      case False
      from gbln_array_push_fail [OF run False] s1 have "released s2 = released s"
        by simp
      from release_both [OF wf live this child] False conv run show ?thesis
        by simp
    qed
  qed
qed

theorem insert_failure_releases_both_witness:
  "wf_state (state_with (FObject [(''k'', FU8 1)]) [])
   \<and> store (state_with (FObject [(''k'', FU8 1)]) []) 1 = Some (ResValue (FObject [(''k'', FU8 1)]))
   \<and> fst (cpp_to_ffi (VInt 7) (state_with (FObject [(''k'', FU8 1)]) [])) = Inr (Some 2)
   \<and> fst (gbln_object_insert (Some 1) (c_str ''k'') (Some 2)
            (snd (cpp_to_ffi (VInt 7) (state_with (FObject [(''k'', FU8 1)]) []))))
       = ErrorDuplicateKey
   \<and> fst (object_entries (Some 1) [(''k'', VInt 7)] (state_with (FObject [(''k'', FU8 1)]) []))
       = Inl (SerialiseError ''Failed to insert object key: k'')
   \<and> released (snd (object_entries (Some 1) [(''k'', VInt 7)]
         (state_with (FObject [(''k'', FU8 1)]) []))) = [2, 1]
   \<and> fst (gbln_array_push (Some 1) (Some 2)
            (snd (cpp_to_ffi (VInt 7) (state_with (FArray []) [(Ok, None), (ErrorIo, None)]))))
       = ErrorIo
   \<and> fst (array_elements (Some 1) [VInt 7] (state_with (FArray []) [(Ok, None), (ErrorIo, None)]))
       = Inl (SerialiseError ''Failed to push array element'')
   \<and> released (snd (array_elements (Some 1) [VInt 7]
         (state_with (FArray []) [(Ok, None), (ErrorIo, None)]))) = [2, 1]
   \<and> fst (gbln_array_push (Some 1) (Some 2)
            (snd (cpp_to_ffi (VInt 7) (state_with (FArray []) [])))) = Ok
   \<and> released (snd (gbln_array_push (Some 1) (Some 2)
            (snd (cpp_to_ffi (VInt 7) (state_with (FArray []) []))))) = []"
proof -
  let ?so = "state_with (FObject [(''k'', FU8 1)]) []"
  let ?sa = "state_with (FArray []) [(Ok, None), (ErrorIo, None)]"
  let ?sq = "state_with (FArray []) []"
  have wfo: "wf_state ?so" and wfa: "wf_state ?sa" and wfq: "wf_state ?sq"
    by (simp_all add: wf_state_def state_with_def init_state_def)
  have lo: "store ?so 1 = Some (ResValue (FObject [(''k'', FU8 1)]))"
    and la: "store ?sa 1 = Some (ResValue (FArray []))"
    and lq: "store ?sq 1 = Some (ResValue (FArray []))"
    by (simp_all add: state_with_def)
  obtain so1 where co: "cpp_to_ffi (VInt 7) ?so = (Inr (Some 2), so1)"
    and so1: "so1 = snd (cpp_to_ffi (VInt 7) ?so)"
    by (simp add: state_with_def engine_defs int7)
  obtain sa1 where ca: "cpp_to_ffi (VInt 7) ?sa = (Inr (Some 2), sa1)"
    and sa1: "sa1 = snd (cpp_to_ffi (VInt 7) ?sa)"
    by (simp add: state_with_def engine_defs int7)
  obtain sq1 where cq: "cpp_to_ffi (VInt 7) ?sq = (Inr (Some 2), sq1)"
    and sq1: "sq1 = snd (cpp_to_ffi (VInt 7) ?sq)"
    by (simp add: state_with_def engine_defs int7)
  obtain so2 where io: "gbln_object_insert (Some 1) (c_str ''k'') (Some 2) so1 = (ErrorDuplicateKey, so2)"
    unfolding so1 by (simp add: state_with_def engine_defs int7 c_str_def)
  obtain sa2 where ia: "gbln_array_push (Some 1) (Some 2) sa1 = (ErrorIo, sa2)"
    unfolding sa1 by (simp add: state_with_def engine_defs int7)
  obtain sq2 where iq: "gbln_array_push (Some 1) (Some 2) sq1 = (Ok, sq2)"
    unfolding sq1 by (simp add: state_with_def engine_defs int7)
  have rel: "released ?so = []" "released ?sa = []" "released ?sq = []"
    by (simp_all add: state_with_def init_state_def)
  note To = insert_failure_releases_both [OF wfo lo co, of "''k''" ErrorDuplicateKey so2 "[]" "[]"]
  from To [THEN conjunct1, rule_format, OF io] obtain so3 where
    "object_entries (Some 1) [(''k'', VInt 7)] ?so
       = (Inl (SerialiseError (''Failed to insert object key: '' @ ''k'')), so3)"
    "released so3 = released ?so @ [2] @ [1]"
    by (auto simp del: object_entries.simps)
  then have ro: "fst (object_entries (Some 1) [(''k'', VInt 7)] ?so)
       = Inl (SerialiseError ''Failed to insert object key: k'')"
    "released (snd (object_entries (Some 1) [(''k'', VInt 7)] ?so)) = [2, 1]"
    by (simp_all add: rel del: object_entries.simps)
  note Ta = insert_failure_releases_both [OF wfa la ca, of "[]" ErrorIo sa2 "[]" "[]"]
  from Ta [THEN conjunct2, rule_format, OF ia] obtain sa3 where
    "array_elements (Some 1) [VInt 7] ?sa
       = (Inl (SerialiseError ''Failed to push array element''), sa3)"
    "released sa3 = released ?sa @ [2] @ [1]"
    by (auto simp del: array_elements.simps)
  then have ra: "fst (array_elements (Some 1) [VInt 7] ?sa)
       = Inl (SerialiseError ''Failed to push array element'')"
    "released (snd (array_elements (Some 1) [VInt 7] ?sa)) = [2, 1]"
    by (simp_all add: rel del: array_elements.simps)
  note Tq = insert_failure_releases_both [OF wfq lq cq, of "[]" Ok sq2 "[]" "[]"]
  from Tq [THEN conjunct2, rule_format, OF iq] have rq: "released sq2 = []"
    by (simp add: rel del: array_elements.simps)
  from co have fo: "fst (cpp_to_ffi (VInt 7) ?so) = Inr (Some 2)"
    by (simp del: cpp_to_ffi.simps)
  from io have fio: "fst (gbln_object_insert (Some 1) (c_str ''k'') (Some 2) so1) = ErrorDuplicateKey"
    by simp
  from ia have fia: "fst (gbln_array_push (Some 1) (Some 2) sa1) = ErrorIo"
    by simp
  from iq rq have fiq: "fst (gbln_array_push (Some 1) (Some 2) sq1) = Ok"
    "released (snd (gbln_array_push (Some 1) (Some 2) sq1)) = []"
    by simp_all
  from wfo lo fo fio ro fia ra fiq show ?thesis
    unfolding so1 sa1 sq1 by (simp del: cpp_to_ffi.simps object_entries.simps array_elements.simps)
qed

text \<open>Two keys that are one C string: the second insert is a real duplicate.\<close>

lemma duplicate_key_releases_both:
  "fst (cpp_to_ffi (VObject [([CHR ''a'', CHR 0x00, CHR ''b''], VInt 1),
                               ([CHR ''a'', CHR 0x00, CHR ''c''], VInt 1)]) init_state)
     = Inl (SerialiseError (''Failed to insert object key: '' @ [CHR ''a'', CHR 0x00, CHR ''c'']))
   \<and> released (snd (cpp_to_ffi (VObject [([CHR ''a'', CHR 0x00, CHR ''b''], VInt 1),
                               ([CHR ''a'', CHR 0x00, CHR ''c''], VInt 1)]) init_state)) = [3, 1]
   \<and> live (snd (cpp_to_ffi (VObject [([CHR ''a'', CHR 0x00, CHR ''b''], VInt 1),
                               ([CHR ''a'', CHR 0x00, CHR ''c''], VInt 1)]) init_state)) = {}"
  by (simp add: engine_defs int1 live_def c_str_def)

subsection \<open>A child whose conversion throws\<close>

text \<open>
  C6 at a failing input.  The array \<open>[1, "\\x80"]\<close>: the array handle is created at
  address 1, the first element is pushed, the second element is a string whose only byte
  is no lead byte, so \<open>create_optimal_string\<close> throws.  The exception passes through the
  array loop, which holds the array in a raw pointer: after the failure the array handle
  is still live and nothing has been freed.  The same happens with an object.
\<close>

theorem nested_failure_leaks_container:
  "fst (cpp_to_ffi (VArray [VInt 1, VString [CHR 0x80]]) init_state)
     = Inl (SerialiseError ''Invalid UTF-8 sequence in string'')
   \<and> store (snd (cpp_to_ffi (VArray [VInt 1, VString [CHR 0x80]]) init_state)) 1
     = Some (ResValue (FArray [FU8 1]))
   \<and> released (snd (cpp_to_ffi (VArray [VInt 1, VString [CHR 0x80]]) init_state)) = []
   \<and> live (snd (cpp_to_ffi (VArray [VInt 1, VString [CHR 0x80]]) init_state)) = {1}
   \<and> live init_state = {}
   \<and> fst (cpp_to_ffi (VObject [(''a'', VInt 1), (''b'', VString [CHR 0x80])]) init_state)
     = Inl (SerialiseError ''Invalid UTF-8 sequence in string'')
   \<and> live (snd (cpp_to_ffi (VObject [(''a'', VInt 1), (''b'', VString [CHR 0x80])]) init_state)) = {1}
   \<and> released (snd (cpp_to_ffi (VObject [(''a'', VInt 1), (''b'', VString [CHR 0x80])]) init_state)) = []"
  by (simp add: engine_defs int1 bad_string live_def c_str_def)

section \<open>Properties of the conversion from foreign handles\<close>

subsection \<open>What the accessors change\<close>

lemma wf_state_release:
  "wf_state s \<Longrightarrow> store s a \<noteq> None \<Longrightarrow> wf_state (release (Some a) s)"
  by (fastforce simp add: wf_state_def release_def)

lemma accessor_frame:
  "accessor r d s = ((x, ok), s1) \<Longrightarrow>
     store s1 = store s \<and> next_addr s1 = next_addr s \<and> released s1 = released s
     \<and> written s1 = written s \<and> (script s = [] \<longrightarrow> script s1 = [])"
  by (auto simp add: accessor_def next_reply_def split: option.splits list.splits prod.splits if_splits)

lemma accessor_quiet:
  "script s = [] \<Longrightarrow> accessor (Some x) d s = ((x, True), s)"
  by (simp add: accessor_def next_reply_quiet)

lemma gbln_object_get_frame:
  "gbln_object_get v key s = (p, s1) \<Longrightarrow>
     store s1 = store s \<and> next_addr s1 = next_addr s \<and> released s1 = released s
     \<and> written s1 = written s \<and> (script s = [] \<longrightarrow> script s1 = [])"
  by (auto simp add: gbln_object_get_def next_reply_def
      split: GblnValue.splits option.splits list.splits prod.splits if_splits)

lemma gbln_array_get_frame:
  "gbln_array_get v i s = (p, s1) \<Longrightarrow>
     store s1 = store s \<and> next_addr s1 = next_addr s \<and> released s1 = released s
     \<and> written s1 = written s \<and> (script s = [] \<longrightarrow> script s1 = [])"
  by (auto simp add: gbln_array_get_def next_reply_def
      split: GblnValue.splits option.splits list.splits prod.splits if_splits)

lemma gbln_object_keys_cases:
  assumes "gbln_object_keys v s = ((keys, count), s1)"
  shows "(keys = None \<and> store s1 = store s \<and> next_addr s1 = next_addr s
            \<and> released s1 = released s \<and> written s1 = written s
            \<and> (script s = [] \<longrightarrow> script s1 = []))
         \<or> (\<exists>kvs. v = FObject kvs \<and> kvs \<noteq> [] \<and> keys = Some (next_addr s)
              \<and> count = length kvs
              \<and> store s1 = (store s)(next_addr s \<mapsto> ResKeys (map (c_str \<circ> fst) kvs))
              \<and> next_addr s1 = Suc (next_addr s) \<and> released s1 = released s
              \<and> written s1 = written s \<and> (script s = [] \<longrightarrow> script s1 = []))"
  using assms
  by (auto simp add: gbln_object_keys_def next_reply_def alloc_def
      split: GblnValue.splits option.splits list.splits prod.splits if_splits)

lemma set_map_assign: "set (map_assign key v m) \<subseteq> insert (key, v) (set m)"
  by (induction m) (auto split: if_splits)

lemma set_map_assign_fst: "fst ` set (map_assign key v m) \<subseteq> insert key (fst ` set m)"
  using set_map_assign [of key v m] by force

lemma sorted_map_assign:
  "sorted_wrt (<) (map fst m) \<Longrightarrow> sorted_wrt (<) (map fst (map_assign key v m))"
proof (induction m)
  case Nil
  then show ?case by simp
next
  case (Cons kx m)
  obtain k x where kx: "kx = (k, x)"
    by (cases kx)
  from Cons.prems kx have above: "\<forall>y \<in> fst ` set m. k < y" and sm: "sorted_wrt (<) (map fst m)"
    by auto
  show ?case
  proof (cases "key < k")
    case True
    with above sm kx show ?thesis
      by (auto intro: less_trans)
  next
    case False
    show ?thesis
    proof (cases "key = k")
      case True
      with above sm kx show ?thesis
        by auto
    next
      case ne: False
      with False have "k < key"
        by auto
      with above set_map_assign_fst [of key v m]
      have "\<forall>y \<in> fst ` set (map_assign key v m). k < y"
        by blast
      with Cons.IH [OF sm] False ne kx show ?thesis
        by auto
    qed
  qed
qed

lemma map_assign_append:
  "\<forall>y \<in> fst ` set m. y < key \<Longrightarrow> map_assign key v m = m @ [(key, v)]"
  by (induction m) auto

subsection \<open>Every outcome is a value of the model or a \<open>ParseError\<close>\<close>

lemma settled_refl: "wf_state s \<Longrightarrow> settled s s"
  by (simp add: settled_def)

lemma settled_trans: "settled s s1 \<Longrightarrow> settled s1 s2 \<Longrightarrow> settled s s2"
  by (auto simp add: settled_def)

lemma settled_wf: "settled s s' \<Longrightarrow> wf_state s'"
  by (simp add: settled_def)

lemma settled_step:
  "wf_state s \<Longrightarrow> store s1 = store s \<and> next_addr s1 = next_addr s \<and> released s1 = released s
     \<and> written s1 = written s \<and> (script s = [] \<longrightarrow> script s1 = []) \<Longrightarrow> settled s s1"
  by (auto simp add: settled_def intro: wf_state_same)

lemma accessor_settled: "wf_state s \<Longrightarrow> accessor r d s = ((x, ok), s1) \<Longrightarrow> settled s s1"
  by (rule settled_step) (auto dest: accessor_frame)

lemma keys_ok_settled: "keys_ok m count s \<Longrightarrow> settled s s' \<Longrightarrow> keys_ok m count s'"
  by (auto simp add: keys_ok_def settled_def split: option.splits)

lemma keys_ok_index:
  "keys_ok m count s \<Longrightarrow> i < count \<Longrightarrow> \<exists>key. ManagedKeys_index m i s = Inr key"
  by (auto simp add: keys_ok_def ManagedKeys_index_def split: option.splits resource.splits)

lemma scalar_view:
  assumes wf: "wf_state s"
    and run: "(case acc_result of ((v, ok), s1) \<Rightarrow>
                 if \<not> ok then (Inl (ParseError msg), s1) else (Inr (mk v), s1)) = (r, s')"
    and acc: "acc_result = accessor a d s"
    and valid: "\<And>v. valid_value (mk v)"
  shows "settled s s' \<and> (\<forall>e. r = Inl e \<longrightarrow> (\<exists>m. e = ParseError m))
           \<and> (\<forall>v. r = Inr v \<longrightarrow> valid_value v)"
proof -
  obtain v ok s1 where a: "accessor a d s = ((v, ok), s1)"
    by (cases "accessor a d s") auto
  from accessor_settled [OF wf a] run acc a valid show ?thesis
    by (auto split: if_splits)
qed


lemma ffi_to_cpp_settled:
  shows "wf_state s \<Longrightarrow> ffi_to_cpp widen view s = (r, s') \<Longrightarrow>
           settled s s' \<and> (\<forall>e. r = Inl e \<longrightarrow> (\<exists>m. e = ParseError m))
           \<and> (\<forall>v. r = Inr v \<longrightarrow> valid_value v)"
    and "wf_state s \<Longrightarrow> keys_ok mk count s \<Longrightarrow> sorted_wrt (<) (map fst acc)
           \<Longrightarrow> \<forall>(k, v) \<in> set acc. valid_value v
           \<Longrightarrow> object_members widen t mk i count acc s = (r2, s') \<Longrightarrow>
           settled s s' \<and> (\<forall>e. r2 = Inl e \<longrightarrow> (\<exists>m. e = ParseError m))
           \<and> (\<forall>obj. r2 = Inr obj \<longrightarrow>
                 sorted_wrt (<) (map fst obj) \<and> (\<forall>(k, v) \<in> set obj. valid_value v))"
    and "wf_state s \<Longrightarrow> \<forall>v \<in> set xacc. valid_value v
           \<Longrightarrow> array_members widen u j len xacc s = (r3, s') \<Longrightarrow>
           settled s s' \<and> (\<forall>e. r3 = Inl e \<longrightarrow> (\<exists>m. e = ParseError m))
           \<and> (\<forall>arr. r3 = Inr arr \<longrightarrow> (\<forall>v \<in> set arr. valid_value v))"
proof (induction widen view s and widen t mk i count acc s and widen u j len xacc s
    arbitrary: r s' and r2 s' and r3 s'
    rule: ffi_to_cpp_object_members_array_members.induct)
  case (1 widen s)
  then show ?case
    by (auto simp add: settled_refl)
next
  case (2 widen ffi_value s)
  note wf = 2(3) and run = 2(4)
  show ?case
  proof (cases "gbln_value_type ffi_value")
    case Null
    with run wf show ?thesis
      by (auto simp add: ffi_to_cpp.simps(2) settled_refl)
  next
    case Bool
    with run have "(case gbln_value_as_bool ffi_value s of ((v, ok), s1) \<Rightarrow>
        if \<not> ok then (Inl (ParseError ''Failed to extract boolean value''), s1)
        else (Inr (VBool v), s1)) = (r, s')"
      by (simp add: ffi_to_cpp.simps(2))
    from scalar_view [OF wf this gbln_value_as_bool_def [THEN fun_cong]] show ?thesis
      by simp
  next
    case F32
    with run have "(case gbln_value_as_f32 ffi_value s of ((v, ok), s1) \<Rightarrow>
        if \<not> ok then (Inl (ParseError ''Failed to extract f32 value''), s1)
        else (Inr ((\<lambda>x. VFloat (widen x)) v), s1)) = (r, s')"
      by (simp add: ffi_to_cpp.simps(2))
    from scalar_view [OF wf this gbln_value_as_f32_def [THEN fun_cong]] show ?thesis
      by simp
  next
    case F64
    with run have "(case gbln_value_as_f64 ffi_value s of ((v, ok), s1) \<Rightarrow>
        if \<not> ok then (Inl (ParseError ''Failed to extract f64 value''), s1)
        else (Inr (VFloat v), s1)) = (r, s')"
      by (simp add: ffi_to_cpp.simps(2))
    from scalar_view [OF wf this gbln_value_as_f64_def [THEN fun_cong]] show ?thesis
      by simp
  next
    case Str
    obtain str_ptr ok s1 where a: "gbln_value_as_string ffi_value s = ((str_ptr, ok), s1)"
      by (cases "gbln_value_as_string ffi_value s") auto
    from accessor_settled [OF wf a [unfolded gbln_value_as_string_def]] run Str a
    show ?thesis
      by (auto simp add: ffi_to_cpp.simps(2) split: if_splits)
  next
    case Array
    with run have loop: "(case array_members widen ffi_value 0 (gbln_array_len ffi_value) [] s of
        (Inl e, s1) \<Rightarrow> (Inl e, s1) | (Inr arr, s1) \<Rightarrow> (Inr (VArray arr), s1)) = (r, s')"
      by (simp add: ffi_to_cpp.simps(2))
    obtain r3 s1 where l: "array_members widen ffi_value 0 (gbln_array_len ffi_value) [] s = (r3, s1)"
      by (cases "array_members widen ffi_value 0 (gbln_array_len ffi_value) [] s")
    from 2(2) [OF Array wf _ l] loop l show ?thesis
      by (cases r3) auto
  next
    case Object
    obtain keys count s1 where k: "gbln_object_keys ffi_value s = ((keys, count), s1)"
      by (cases "gbln_object_keys ffi_value s") auto
    show ?thesis
    proof (cases "keys = None \<and> count > 0")
      case True
      with gbln_object_keys_cases [OF k] have "store s1 = store s \<and> next_addr s1 = next_addr s
          \<and> released s1 = released s \<and> written s1 = written s
          \<and> (script s = [] \<longrightarrow> script s1 = [])"
        by auto
      from settled_step [OF wf this] run Object k True show ?thesis
        by (auto simp add: ffi_to_cpp.simps(2))
    next
      case False
      then obtain mk where mk: "ManagedKeys_new keys count = Inr mk"
        and mkd: "mk = \<lparr>mk_keys = keys, mk_count = count\<rparr>"
        by (auto simp add: ManagedKeys_new_def)
      obtain r2 s2 where l: "object_members widen ffi_value mk 0 count [] s1 = (r2, s2)"
        by (cases "object_members widen ffi_value mk 0 count [] s1")
      from run Object k False mk l
      have res: "s' = ManagedKeys_delete mk s2"
        "r = (case r2 of Inl e \<Rightarrow> Inl e | Inr obj \<Rightarrow> Inr (VObject obj))"
        by (auto simp add: ffi_to_cpp.simps(2) split: sum.splits)
      from gbln_object_keys_cases [OF k] show ?thesis
      proof (elim disjE conjE exE)
        assume none: "keys = None" and fr: "store s1 = store s" "next_addr s1 = next_addr s"
          "released s1 = released s" "written s1 = written s" "script s = [] \<longrightarrow> script s1 = []"
        from settled_step [OF wf] fr have st1: "settled s s1"
          by simp
        from none False have c0: "count = 0"
          by simp
        with none mkd have ko: "keys_ok mk count s1"
          by (simp add: keys_ok_def)
        from 2(1) [OF Object k [symmetric] refl False mk settled_wf [OF st1] ko _ _ l]
        have st2: "settled s1 s2" and rr: "\<forall>e. r2 = Inl e \<longrightarrow> (\<exists>m. e = ParseError m)"
          "\<forall>obj. r2 = Inr obj \<longrightarrow> sorted_wrt (<) (map fst obj) \<and> (\<forall>(k, v) \<in> set obj. valid_value v)"
          by simp_all
        from none mkd res(1) have "s' = s2"
          by (simp add: ManagedKeys_delete_def)
        with settled_trans [OF st1 st2] rr res(2) show ?thesis
          by (cases r2) auto
      next
        fix kvs
        assume some: "keys = Some (next_addr s)" and cnt: "count = length kvs"
          and st: "store s1 = (store s)(next_addr s \<mapsto> ResKeys (map (c_str \<circ> fst) kvs))"
          and fr: "next_addr s1 = Suc (next_addr s)" "released s1 = released s"
            "written s1 = written s" "script s = [] \<longrightarrow> script s1 = []"
        have wf1: "wf_state s1"
          using wf st _ fr(2) by (rule wf_state_alloc) (simp add: fr)
        from some mkd st cnt have ko: "keys_ok mk count s1"
          by (simp add: keys_ok_def)
        from 2(1) [OF Object k [symmetric] refl False mk wf1 ko _ _ l]
        have st2: "settled s1 s2" and rr: "\<forall>e. r2 = Inl e \<longrightarrow> (\<exists>m. e = ParseError m)"
          "\<forall>obj. r2 = Inr obj \<longrightarrow> sorted_wrt (<) (map fst obj) \<and> (\<forall>(k, v) \<in> set obj. valid_value v)"
          by simp_all
        from some mkd res(1) have s': "s' = release (Some (next_addr s)) s2"
          by (simp add: ManagedKeys_delete_def gbln_keys_free_def)
        from st2 st have live2: "store s2 (next_addr s) \<noteq> None"
          by (simp add: settled_def)
        from wf_state_release [OF settled_wf [OF st2] live2] s' have wf': "wf_state s'"
          by simp
        from wf have "store s (next_addr s) = None"
          by (simp add: wf_state_fresh)
        with st2 st s' have "store s' = store s"
          by (auto simp add: settled_def release_def fun_eq_iff)
        moreover from st2 fr s' have "next_addr s \<le> next_addr s'" "written s' = written s"
          "script s = [] \<longrightarrow> script s' = []"
          by (auto simp add: settled_def release_def)
        ultimately have "settled s s'"
          using wf' by (simp add: settled_def)
        with rr res(2) show ?thesis
          by (cases r2) auto
      qed
    qed
  qed (use run wf in \<open>auto simp add: ffi_to_cpp.simps(2) gbln_value_as_i64_def
        dest!: accessor_settled split: prod.splits if_splits\<close>)
next
  case (3 widen ffi_value managed_keys i count obj s)
  note wf = 3(3) and ko = 3(4) and so = 3(5) and vo = 3(6) and run = 3(7)
  show ?case
  proof (cases "i < count")
    case False
    with run wf so vo show ?thesis
      by (auto simp add: object_members.simps [of _ _ _ i] settled_refl)
  next
    case True
    from keys_ok_index [OF ko True] obtain key where key: "ManagedKeys_index managed_keys i s = Inr key"
      by auto
    obtain p s1 where g: "gbln_object_get ffi_value key s = (p, s1)"
      by (cases "gbln_object_get ffi_value key s")
    from settled_step [OF wf gbln_object_get_frame [OF g]] have st1: "settled s s1" .
    show ?thesis
    proof (cases p)
      case None
      with run True key g st1 show ?thesis
        by (auto simp add: object_members.simps [of _ _ _ i])
    next
      case (Some child)
      obtain rc s2 where c: "ffi_to_cpp widen (Some child) s1 = (rc, s2)"
        by (cases "ffi_to_cpp widen (Some child) s1")
      from 3(1) [OF True key g [symmetric] Some settled_wf [OF st1] c]
      have st2: "settled s1 s2" and rce: "\<forall>e. rc = Inl e \<longrightarrow> (\<exists>m. e = ParseError m)"
        and rcv: "\<forall>v. rc = Inr v \<longrightarrow> valid_value v"
        by simp_all
      show ?thesis
      proof (cases rc)
        case (Inl e)
        with run True key g Some c rce settled_trans [OF st1 st2] show ?thesis
          by (auto simp add: object_members.simps [of _ _ _ i])
      next
        case (Inr v)
        with run True key g Some c
        have rest: "object_members widen ffi_value managed_keys (i + 1) count
            (map_assign key v obj) s2 = (r2, s')"
          by (simp add: object_members.simps [of _ _ _ i])
        have st12: "settled s s2"
          using st1 st2 by (rule settled_trans)
        have so': "sorted_wrt (<) (map fst (map_assign key v obj))"
          using so by (rule sorted_map_assign)
        have vo': "\<forall>(k, x) \<in> set (map_assign key v obj). valid_value x"
          using vo rcv Inr set_map_assign [of key v obj] by auto
        from 3(2) [OF True key g [symmetric] Some c [symmetric] Inr settled_wf [OF st12]
            keys_ok_settled [OF ko st12] so' vo' rest]
          settled_trans [OF st12] show ?thesis
          by auto
      qed
    qed
  qed
next
  case (4 widen ffi_value i len arr s)
  note wf = 4(3) and va = 4(4) and run = 4(5)
  show ?case
  proof (cases "i < len")
    case False
    with run wf va show ?thesis
      by (auto simp add: array_members.simps [of _ _ i] settled_refl)
  next
    case True
    obtain p s1 where g: "gbln_array_get ffi_value i s = (p, s1)"
      by (cases "gbln_array_get ffi_value i s")
    from settled_step [OF wf gbln_array_get_frame [OF g]] have st1: "settled s s1" .
    show ?thesis
    proof (cases p)
      case None
      with run True g st1 show ?thesis
        by (auto simp add: array_members.simps [of _ _ i])
    next
      case (Some child)
      obtain rc s2 where c: "ffi_to_cpp widen (Some child) s1 = (rc, s2)"
        by (cases "ffi_to_cpp widen (Some child) s1")
      from 4(1) [OF True g [symmetric] Some settled_wf [OF st1] c]
      have st2: "settled s1 s2" and rce: "\<forall>e. rc = Inl e \<longrightarrow> (\<exists>m. e = ParseError m)"
        and rcv: "\<forall>v. rc = Inr v \<longrightarrow> valid_value v"
        by simp_all
      show ?thesis
      proof (cases rc)
        case (Inl e)
        with run True g Some c rce settled_trans [OF st1 st2] show ?thesis
          by (auto simp add: array_members.simps [of _ _ i])
      next
        case (Inr v)
        with run True g Some c
        have rest: "array_members widen ffi_value (i + 1) len (arr @ [v]) s2 = (r3, s')"
          by (simp add: array_members.simps [of _ _ i])
        have st12: "settled s s2"
          using st1 st2 by (rule settled_trans)
        have va': "\<forall>x \<in> set (arr @ [v]). valid_value x"
          using va rcv Inr by auto
        from 4(2) [OF True g [symmetric] Some c [symmetric] Inr settled_wf [OF st12] va' rest]
          settled_trans [OF st12] show ?thesis
          by auto
      qed
    qed
  qed
qed

section \<open>Error reporting of the entry points\<close>












subsection \<open>The outcomes of serialising and writing\<close>












section \<open>The round trip\<close>

subsection \<open>Integers and strings survive the engine\<close>

lemma c_str_c_string: "c_string str \<Longrightarrow> c_str str = str"
  by (auto simp add: c_string_def c_str_def takeWhile_eq_all_conv)

lemma ucast_back:
  fixes n :: "64 word"
  assumes "0 \<le> sint n" "sint n < 2 ^ LENGTH('b::len)" "LENGTH('b) \<le> 64"
  shows "(ucast (ucast n :: 'b word) :: 64 word) = n"
proof -
  define x :: "'b word" where "x = ucast n"
  have "uint (ucast x :: 64 word) = take_bit LENGTH(64) (uint x)"
    by (rule unsigned_ucast_eq)
  also have "uint x = sint n"
    unfolding x_def using assms by (rule uint_ucast_sint)
  also have "take_bit LENGTH(64) (sint n) = uint n"
    by (rule uint_sint [symmetric])
  finally show ?thesis
    unfolding x_def by (simp only: word_uint_eq_iff)
qed

lemma scast_back:
  fixes n :: "64 word"
  assumes "- (2 ^ (LENGTH('b::len) - 1)) \<le> sint n" "sint n < 2 ^ (LENGTH('b) - 1)"
    "LENGTH('b) \<le> 64"
  shows "(scast (ucast n :: 'b word) :: 64 word) = n"
proof -
  have "sint (scast (ucast n :: 'b word) :: 64 word)
          = signed_take_bit 63 (sint (ucast n :: 'b word))"
    by (simp add: signed_scast_eq)
  also have "\<dots> = signed_take_bit 63 (sint n)"
    using assms by (simp add: sint_ucast_sint)
  also have "\<dots> = sint n"
    using sint_ge [of n] sint_lt [of n] by (simp add: signed_take_bit_int_eq_self)
  finally show ?thesis
    by (rule signed_word_eqI)
qed

lemma as_i64_optimal_int_tree: "as_i64 (optimal_int_tree n) = Some n"
  using ucast_back [of n, where 'b = 8] ucast_back [of n, where 'b = 16]
    ucast_back [of n, where 'b = 32]
    scast_back [of n, where 'b = 8] scast_back [of n, where 'b = 16]
    scast_back [of n, where 'b = 32]
  by (auto simp add: optimal_int_tree_def sle_iff)

subsection \<open>A quiet engine converts every representable value\<close>

lemma gbln_object_insert_quiet:
  "script s = [] \<Longrightarrow> store s ob = Some (ResValue (FObject kvs))
     \<Longrightarrow> store s c = Some (ResValue v) \<Longrightarrow> ob \<noteq> c \<Longrightarrow> key \<notin> fst ` set kvs \<Longrightarrow>
   gbln_object_insert (Some ob) key (Some c) s
     = (Ok, s\<lparr>store := (store s)(ob \<mapsto> ResValue (FObject (kvs @ [(key, v)])), c := None)\<rparr>)"
  by (simp add: gbln_object_insert_def next_reply_quiet)

lemma gbln_array_push_quiet:
  "script s = [] \<Longrightarrow> store s a = Some (ResValue (FArray xs))
     \<Longrightarrow> store s c = Some (ResValue v) \<Longrightarrow> a \<noteq> c \<Longrightarrow>
   gbln_array_push (Some a) (Some c) s
     = (Ok, s\<lparr>store := (store s)(a \<mapsto> ResValue (FArray (xs @ [v])), c := None)\<rparr>)"
  by (simp add: gbln_array_push_def next_reply_quiet)

lemma new_value_script: "script s = [] \<Longrightarrow> new_value v s = (p, s1) \<Longrightarrow> p = Some (next_addr s) \<and> script s1 = []"
  by (auto simp add: new_value_quiet)

lemma scalar_quiet:
  "script s = [] \<Longrightarrow>
     \<exists>s'. (case new_value v s of (p, s1) \<Rightarrow> (Inr p :: error + ptr, s1)) = (Inr (Some (next_addr s)), s')
          \<and> script s' = []"
  by (simp add: new_value_quiet)

lemma cpp_to_ffi_quiet:
  shows "wf_state s \<Longrightarrow> script s = [] \<Longrightarrow> representable V \<Longrightarrow>
           \<exists>s'. cpp_to_ffi V s = (Inr (Some (next_addr s)), s') \<and> script s' = []"
    and "wf_state s \<Longrightarrow> script s = [] \<Longrightarrow> obj = Some ob
           \<Longrightarrow> store s ob = Some (ResValue (FObject acc))
           \<Longrightarrow> \<forall>(k, v) \<in> set kvs. c_string k \<and> representable v
           \<Longrightarrow> distinct (map fst acc @ map fst kvs)
           \<Longrightarrow> \<exists>s'. object_entries obj kvs s = (Inr (), s') \<and> script s' = []"
    and "wf_state s \<Longrightarrow> script s = [] \<Longrightarrow> arr = Some ar
           \<Longrightarrow> store s ar = Some (ResValue (FArray xacc))
           \<Longrightarrow> \<forall>v \<in> set xs. representable v
           \<Longrightarrow> \<exists>s'. array_elements arr xs s = (Inr (), s') \<and> script s' = []"
proof (induction V s and obj kvs s and arr xs s arbitrary: and ob acc and ar xacc
    rule: cpp_to_ffi_object_entries_array_elements.induct)
  case (1 s)
  then show ?case
    by (simp add: gbln_value_new_null_def new_value_quiet)
next
  case (2 arg s)
  then show ?case
    by (simp add: gbln_value_new_bool_def new_value_quiet)
next
  case (3 arg s)
  then show ?case
    by (simp add: create_optimal_int_tree new_value_quiet)
next
  case (4 arg s)
  then show ?case
    by (simp add: gbln_value_new_f64_def new_value_quiet)
next
  case (5 arg s)
  from 5(3) obtain c where c: "count_chars arg 0 0 = Inr c" "c \<le> 1024"
    by (auto split: sum.splits)
  from create_optimal_string_ok [OF c] 5(2) show ?case
    by (simp add: new_value_quiet)
next
  case (6 arg s)
  note wf = 6(2) and quiet = 6(3) and rep = 6(4)
  let ?s1 = "s\<lparr>store := (store s)(next_addr s \<mapsto> ResValue (FObject [])),
                next_addr := Suc (next_addr s)\<rparr>"
  from quiet have new: "gbln_value_new_object s = (Some (next_addr s), ?s1)"
    by (simp add: gbln_value_new_object_def new_value_quiet)
  then have nv: "new_value (FObject []) s = (Some (next_addr s), ?s1)"
    by (simp add: gbln_value_new_object_def)
  from scalar_success [OF wf nv] have wf1: "wf_state ?s1"
    by simp
  have q1: "script ?s1 = []"
    using quiet by simp
  have live1: "store ?s1 (next_addr s) = Some (ResValue (FObject []))"
    by simp
  from rep have entries: "\<forall>(k, v) \<in> set arg. c_string k \<and> representable v"
    and d: "distinct (map fst [] @ map fst arg)"
    by (auto simp add: strict_sorted_iff)
  have nn: "Some (next_addr s) \<noteq> None"
    by simp
  from 6(1) [OF new [symmetric] nn wf1 q1 refl live1 entries d]
  obtain s' where "object_entries (Some (next_addr s)) arg ?s1 = (Inr (), s')" "script s' = []"
    by blast
  with new show ?case
    by simp
next
  case (7 arg s)
  note wf = 7(2) and quiet = 7(3) and rep = 7(4)
  let ?s1 = "s\<lparr>store := (store s)(next_addr s \<mapsto> ResValue (FArray [])),
                next_addr := Suc (next_addr s)\<rparr>"
  from quiet have new: "gbln_value_new_array s = (Some (next_addr s), ?s1)"
    by (simp add: gbln_value_new_array_def new_value_quiet)
  then have nv: "new_value (FArray []) s = (Some (next_addr s), ?s1)"
    by (simp add: gbln_value_new_array_def)
  from scalar_success [OF wf nv] have wf1: "wf_state ?s1"
    by simp
  have q1: "script ?s1 = []"
    using quiet by simp
  have live1: "store ?s1 (next_addr s) = Some (ResValue (FArray []))"
    by simp
  from rep have elems: "\<forall>v \<in> set arg. representable v"
    by simp
  have nn: "Some (next_addr s) \<noteq> None"
    by simp
  from 7(1) [OF new [symmetric] nn wf1 q1 refl live1 elems]
  obtain s' where "array_elements (Some (next_addr s)) arg ?s1 = (Inr (), s')" "script s' = []"
    by blast
  with new show ?case
    by simp
next
  case (8 obj s)
  then show ?case
    by simp
next
  case (9 obj key val rest s)
  note wf = 9(3) and quiet = 9(4) and ob = 9(5) and live = 9(6) and rep = 9(7) and d = 9(8)
  from rep have rv: "representable val" and ck: "c_string key"
    and rrest: "\<forall>(k, v) \<in> set rest. c_string k \<and> representable v"
    by auto
  from 9(1) [OF wf quiet rv] obtain s1 where
    conv: "cpp_to_ffi val s = (Inr (Some (next_addr s)), s1)" and q1: "script s1 = []"
    by blast
  from cpp_to_ffi_success(1) [OF wf conv]
  have wf1: "wf_state s1" and rel1: "released s1 = released s"
    and nx1: "next_addr s < next_addr s1"
    by simp_all
  from cpp_to_ffi_success(1) [OF wf conv]
  have st1: "store s1 = (store s)(next_addr s \<mapsto> ResValue (foreign_tree val))"
    by blast
  let ?c = "next_addr s"
  from wf live have lt: "ob < ?c"
    by (rule wf_state_live)
  then have ne: "ob \<noteq> ?c"
    by simp
  from wf have fresh: "store s ?c = None"
    by (simp add: wf_state_fresh)
  from st1 live ne have live1: "store s1 ob = Some (ResValue (FObject acc))"
    by simp
  from st1 have child1: "store s1 ?c = Some (ResValue (foreign_tree val))"
    by simp
  from d ck have nk: "c_str key \<notin> fst ` set acc"
    by (auto simp add: c_str_c_string)
  let ?s2 = "s1\<lparr>store := (store s1)(ob \<mapsto> ResValue (FObject (acc @ [(c_str key, foreign_tree val)])),
                   ?c := None)\<rparr>"
  from gbln_object_insert_quiet [OF q1 live1 child1 ne nk] ob
  have ins: "gbln_object_insert obj (c_str key) (Some ?c) s1 = (Ok, ?s2)"
    by simp
  have st2: "store ?s2 = (store s)(ob \<mapsto> ResValue (FObject (acc @ [(c_str key, foreign_tree val)])))"
    using st1 ne fresh by (auto simp add: fun_eq_iff)
  have wf2: "wf_state ?s2"
    using wf _ st2 by (rule wf_state_update) (use live nx1 rel1 in auto)
  have live2: "store ?s2 ob = Some (ResValue (FObject (acc @ [(c_str key, foreign_tree val)])))"
    using ne by simp
  have q2: "script ?s2 = []"
    using q1 by simp
  have nok: "\<not> Ok \<noteq> Ok"
    by simp
  from d ck have d2: "distinct (map fst (acc @ [(c_str key, foreign_tree val)]) @ map fst rest)"
    by (auto simp add: c_str_c_string)
  from 9(2) [OF conv [symmetric] refl ins [symmetric] nok wf2 q2 ob live2 rrest d2]
  obtain s' where "object_entries obj rest ?s2 = (Inr (), s')" "script s' = []"
    by blast
  with conv ins show ?case
    by simp
next
  case (10 arr s)
  then show ?case
    by simp
next
  case (11 arr elem rest s)
  note wf = 11(3) and quiet = 11(4) and ar = 11(5) and live = 11(6) and rep = 11(7)
  from rep have rv: "representable elem" and rrest: "\<forall>v \<in> set rest. representable v"
    by auto
  from 11(1) [OF wf quiet rv] obtain s1 where
    conv: "cpp_to_ffi elem s = (Inr (Some (next_addr s)), s1)" and q1: "script s1 = []"
    by blast
  from cpp_to_ffi_success(1) [OF wf conv]
  have wf1: "wf_state s1" and rel1: "released s1 = released s"
    and nx1: "next_addr s < next_addr s1"
    by simp_all
  from cpp_to_ffi_success(1) [OF wf conv]
  have st1: "store s1 = (store s)(next_addr s \<mapsto> ResValue (foreign_tree elem))"
    by blast
  let ?c = "next_addr s"
  from wf live have lt: "ar < ?c"
    by (rule wf_state_live)
  then have ne: "ar \<noteq> ?c"
    by simp
  from wf have fresh: "store s ?c = None"
    by (simp add: wf_state_fresh)
  from st1 live ne have live1: "store s1 ar = Some (ResValue (FArray xacc))"
    by simp
  from st1 have child1: "store s1 ?c = Some (ResValue (foreign_tree elem))"
    by simp
  let ?s2 = "s1\<lparr>store := (store s1)(ar \<mapsto> ResValue (FArray (xacc @ [foreign_tree elem])),
                   ?c := None)\<rparr>"
  from gbln_array_push_quiet [OF q1 live1 child1 ne] ar
  have ins: "gbln_array_push arr (Some ?c) s1 = (Ok, ?s2)"
    by simp
  have st2: "store ?s2 = (store s)(ar \<mapsto> ResValue (FArray (xacc @ [foreign_tree elem])))"
    using st1 ne fresh by (auto simp add: fun_eq_iff)
  have wf2: "wf_state ?s2"
    using wf _ st2 by (rule wf_state_update) (use live nx1 rel1 in auto)
  have live2: "store ?s2 ar = Some (ResValue (FArray (xacc @ [foreign_tree elem])))"
    using ne by simp
  have q2: "script ?s2 = []"
    using q1 by simp
  have nok: "\<not> Ok \<noteq> Ok"
    by simp
  from 11(2) [OF conv [symmetric] refl ins [symmetric] nok wf2 q2 ar live2 rrest]
  obtain s' where "array_elements arr rest ?s2 = (Inr (), s')" "script s' = []"
    by blast
  with conv ins show ?case
    by simp
qed

subsection \<open>The view of a converted value is the value\<close>

lemma array_loop:
  assumes IH: "\<And>v s. v \<in> set xs \<Longrightarrow> wf_state s \<Longrightarrow> script s = [] \<Longrightarrow>
                 \<exists>s'. ffi_to_cpp widen (Some (foreign_tree v)) s = (Inr v, s')"
  shows "wf_state s \<Longrightarrow> script s = [] \<Longrightarrow> i \<le> length xs \<Longrightarrow>
     \<exists>s'. array_members widen (FArray (map foreign_tree xs)) i (length xs) arr s
            = (Inr (arr @ drop i xs), s')"
proof (induction "length xs - i" arbitrary: i arr s)
  case 0
  then show ?case
    by (simp add: array_members.simps)
next
  case (Suc n)
  from Suc(2) have lt: "i < length xs"
    by simp
  from Suc(4) lt have get: "gbln_array_get (FArray (map foreign_tree xs)) i s
      = (Some (foreign_tree (xs ! i)), s)"
    by (simp add: gbln_array_get_def next_reply_quiet)
  from lt have mem: "xs ! i \<in> set xs"
    by simp
  from IH [OF mem Suc(3,4)] obtain s2 where
    conv: "ffi_to_cpp widen (Some (foreign_tree (xs ! i))) s = (Inr (xs ! i), s2)"
    by blast
  from ffi_to_cpp_settled(1) [OF Suc(3) conv] Suc(4) have wf2: "wf_state s2" and q2: "script s2 = []"
    by (simp_all add: settled_def)
  from Suc(2) have n: "n = length xs - (i + 1)"
    by simp
  from lt have le: "i + 1 \<le> length xs"
    by simp
  from Suc(1) [OF n wf2 q2 le, of "arr @ [xs ! i]"] obtain s' where
    "array_members widen (FArray (map foreign_tree xs)) (i + 1) (length xs) (arr @ [xs ! i]) s2
       = (Inr ((arr @ [xs ! i]) @ drop (i + 1) xs), s')"
    by blast
  with lt get conv show ?case
    by (subst array_members.simps) (simp add: Cons_nth_drop_Suc)
qed

lemma map_of_foreign:
  assumes "distinct (map fst kvs)" "i < length kvs"
  shows "map_of (map (\<lambda>(k, v). (k, f v)) kvs) (fst (kvs ! i)) = Some (f (snd (kvs ! i)))"
proof -
  from assms(2) have "(fst (kvs ! i), snd (kvs ! i)) \<in> set kvs"
    by simp
  with assms(1) have "map_of kvs (fst (kvs ! i)) = Some (snd (kvs ! i))"
    by simp
  then show ?thesis
    by (simp add: map_of_map)
qed

lemma foreign_entries:
  "\<forall>(k, v) \<in> set kvs. c_string k \<Longrightarrow>
     map (\<lambda>(k, v). (c_str k, foreign_tree v)) kvs = map (\<lambda>(k, v). (k, foreign_tree v)) kvs"
  by (auto simp add: c_str_c_string)

lemma foreign_keys:
  "\<forall>(k, v) \<in> set kvs. c_string k \<Longrightarrow>
     map (c_str \<circ> fst) (map (\<lambda>(k, v). (c_str k, foreign_tree v)) kvs) = map fst kvs"
  by (auto simp add: c_str_c_string)

lemma take_sorted_less:
  assumes "sorted_wrt (<) (map fst kvs)" "i < length kvs"
  shows "\<forall>y \<in> fst ` set (take i kvs). y < fst (kvs ! i)"
proof
  fix y assume "y \<in> fst ` set (take i kvs)"
  then obtain j where j: "j < i" "y = fst (kvs ! j)"
    using assms(2) by (auto simp add: in_set_conv_nth)
  with assms(2) have "j < i" "i < length (map fst kvs)"
    by simp_all
  with assms(1) have "map fst kvs ! j < map fst kvs ! i"
    by (rule sorted_wrt_nth_less)
  with j assms(2) show "y < fst (kvs ! i)"
    by simp
qed

lemma object_loop:
  assumes IH: "\<And>v s. v \<in> snd ` set kvs \<Longrightarrow> wf_state s \<Longrightarrow> script s = [] \<Longrightarrow>
                 \<exists>s'. ffi_to_cpp widen (Some (foreign_tree v)) s = (Inr v, s')"
    and keys: "\<forall>(k, v) \<in> set kvs. c_string k"
    and sorted: "sorted_wrt (<) (map fst kvs)"
  shows "wf_state s \<Longrightarrow> script s = [] \<Longrightarrow> i \<le> length kvs
     \<Longrightarrow> store s a = Some (ResKeys (map fst kvs)) \<Longrightarrow>
     \<exists>s'. object_members widen (FObject (map (\<lambda>(k, v). (c_str k, foreign_tree v)) kvs))
             \<lparr>mk_keys = Some a, mk_count = length kvs\<rparr> i (length kvs) (take i kvs) s
            = (Inr kvs, s') \<and> settled s s'"
proof (induction "length kvs - i" arbitrary: i s)
  case 0
  then show ?case
    by (simp add: object_members.simps settled_refl)
next
  case (Suc n)
  let ?t = "FObject (map (\<lambda>(k, v). (c_str k, foreign_tree v)) kvs)"
  let ?mk = "\<lparr>mk_keys = Some a, mk_count = length kvs\<rparr>"
  let ?key = "fst (kvs ! i)"
  let ?val = "snd (kvs ! i)"
  from Suc(2) have lt: "i < length kvs"
    by simp
  from lt Suc(6) have idx: "ManagedKeys_index ?mk i s = Inr ?key"
    by (simp add: ManagedKeys_index_def)
  from sorted have d: "distinct (map fst kvs)"
    by (simp add: strict_sorted_iff)
  from map_of_foreign [OF d lt, of foreign_tree] Suc(4)
  have get: "gbln_object_get ?t ?key s = (Some (foreign_tree ?val), s)"
    unfolding foreign_entries [OF keys] by (simp add: gbln_object_get_def next_reply_quiet)
  from lt have mem: "?val \<in> snd ` set kvs"
    by simp
  from IH [OF mem Suc(3,4)] obtain s2 where
    conv: "ffi_to_cpp widen (Some (foreign_tree ?val)) s = (Inr ?val, s2)"
    by blast
  from ffi_to_cpp_settled(1) [OF Suc(3) conv] have st: "settled s s2"
    by simp
  with Suc(4) have wf2: "wf_state s2" and q2: "script s2 = []" and store2: "store s2 = store s"
    by (simp_all add: settled_def)
  from Suc(2) have n: "n = length kvs - (i + 1)"
    by simp
  from lt have le: "i + 1 \<le> length kvs"
    by simp
  from store2 Suc(6) have live2: "store s2 a = Some (ResKeys (map fst kvs))"
    by simp
  from map_assign_append [OF take_sorted_less [OF sorted lt], of ?val] lt
  have acc: "map_assign ?key ?val (take i kvs) = take (i + 1) kvs"
    by (simp add: take_Suc_conv_app_nth)
  from Suc(1) [OF n wf2 q2 le live2] obtain s' where
    rest: "object_members widen ?t ?mk (i + 1) (length kvs) (take (i + 1) kvs) s2 = (Inr kvs, s')"
    and st2: "settled s2 s'"
    by blast
  from settled_trans [OF st st2] have "settled s s'" .
  with lt idx get conv rest acc show ?case
    by (subst object_members.simps) simp
qed

lemma int_tag_optimal_int_tree: "gbln_value_type (optimal_int_tree n) \<in> set int_tags"
  by (simp add: optimal_int_tree_def int_tags_def)

lemma ffi_to_cpp_integer:
  assumes "gbln_value_type t \<in> set int_tags" "as_i64 t = Some n" "script s = []"
  shows "ffi_to_cpp widen (Some t) s = (Inr (VInt n), s)"
  using assms
  by (cases t) (simp_all add: ffi_to_cpp.simps(2) int_tags_def gbln_value_as_i64_def accessor_quiet)

lemma ffi_to_cpp_foreign_tree:
  "wf_state s \<Longrightarrow> script s = [] \<Longrightarrow> representable V \<Longrightarrow>
     \<exists>s'. ffi_to_cpp widen (Some (foreign_tree V)) s = (Inr V, s')"
proof (induction V arbitrary: s)
  case VNull
  then show ?case
    by (simp add: ffi_to_cpp.simps(2))
next
  case (VBool b)
  then show ?case
    by (simp add: ffi_to_cpp.simps(2) gbln_value_as_bool_def accessor_quiet)
next
  case (VInt n)
  from ffi_to_cpp_integer [OF int_tag_optimal_int_tree as_i64_optimal_int_tree VInt(2)]
  show ?case
    by simp
next
  case (VFloat x)
  then show ?case
    by (simp add: ffi_to_cpp.simps(2) gbln_value_as_f64_def accessor_quiet)
next
  case (VString str)
  then show ?case
    by (simp add: ffi_to_cpp.simps(2) gbln_value_as_string_def accessor_quiet c_str_c_string)
next
  case (VObject kvs)
  note wf = VObject(2) and quiet = VObject(3) and rep = VObject(4)
  let ?t = "FObject (map (\<lambda>(k, v). (c_str k, foreign_tree v)) kvs)"
  from rep have keys: "\<forall>(k, v) \<in> set kvs. c_string k"
    and sorted: "sorted_wrt (<) (map fst kvs)"
    and vals: "\<forall>(k, v) \<in> set kvs. representable v"
    by auto
  have IH: "\<And>v s. v \<in> snd ` set kvs \<Longrightarrow> wf_state s \<Longrightarrow> script s = [] \<Longrightarrow>
                 \<exists>s'. ffi_to_cpp widen (Some (foreign_tree v)) s = (Inr v, s')"
  proof -
    fix v s
    assume m: "v \<in> snd ` set kvs" and w: "wf_state s" and q: "script s = []"
    from m obtain k where kv: "(k, v) \<in> set kvs"
      by auto
    with vals have "representable v"
      by auto
    with VObject(1) [of "(k, v)" v, OF kv _ w q] show
      "\<exists>s'. ffi_to_cpp widen (Some (foreign_tree v)) s = (Inr v, s')"
      by simp
  qed
  show ?case
  proof (cases "kvs = []")
    case True
    then show ?thesis
      by (simp add: ffi_to_cpp.simps(2) gbln_object_keys_def ManagedKeys_new_def
          object_members.simps ManagedKeys_delete_def)
  next
    case False
    let ?a = "next_addr s"
    let ?s1 = "s\<lparr>store := (store s)(?a \<mapsto> ResKeys (map fst kvs)), next_addr := Suc ?a\<rparr>"
    let ?mk = "\<lparr>mk_keys = Some ?a, mk_count = length kvs\<rparr>"
    have k: "gbln_object_keys ?t s = ((Some ?a, length kvs), ?s1)"
    proof -
      have "gbln_object_keys ?t s = ((Some ?a, length kvs),
          s\<lparr>store := (store s)(?a \<mapsto> ResKeys (map (c_str \<circ> fst)
                 (map (\<lambda>(k, v). (c_str k, foreign_tree v)) kvs))), next_addr := Suc ?a\<rparr>)"
        using False quiet by (simp add: gbln_object_keys_def next_reply_quiet alloc_def)
      then show ?thesis
        by (simp only: foreign_keys [OF keys])
    qed
    have wf1: "wf_state ?s1"
      using wf by (rule wf_state_alloc) simp_all
    have q1: "script ?s1 = []"
      using quiet by simp
    have live1: "store ?s1 ?a = Some (ResKeys (map fst kvs))"
      by simp
    have "\<exists>s'. object_members widen ?t ?mk 0 (length kvs) (take 0 kvs) ?s1 = (Inr kvs, s')
            \<and> settled ?s1 s'"
    proof (rule object_loop)
      show "\<And>v s. v \<in> snd ` set kvs \<Longrightarrow> wf_state s \<Longrightarrow> script s = [] \<Longrightarrow>
                 \<exists>s'. ffi_to_cpp widen (Some (foreign_tree v)) s = (Inr v, s')"
        by (rule IH)
      show "\<forall>(k, v) \<in> set kvs. c_string k"
        by (rule keys)
      show "sorted_wrt (<) (map fst kvs)"
        by (rule sorted)
      show "wf_state ?s1"
        by (rule wf1)
      show "script ?s1 = []"
        by (rule q1)
      show "0 \<le> length kvs"
        by simp
      show "store ?s1 ?a = Some (ResKeys (map fst kvs))"
        by (rule live1)
    qed
    then obtain s' where
      loop: "object_members widen ?t ?mk 0 (length kvs) [] ?s1 = (Inr kvs, s')"
      by auto
    from False have mk: "ManagedKeys_new (Some ?a) (length kvs) = Inr ?mk"
      by (simp add: ManagedKeys_new_def)
    from k mk loop show ?thesis
      by (simp add: ffi_to_cpp.simps(2))
  qed
next
  case (VArray xs)
  note wf = VArray(2) and quiet = VArray(3) and rep = VArray(4)
  have IH: "\<And>v s. v \<in> set xs \<Longrightarrow> wf_state s \<Longrightarrow> script s = [] \<Longrightarrow>
                 \<exists>s'. ffi_to_cpp widen (Some (foreign_tree v)) s = (Inr v, s')"
    using VArray(1) rep by simp
  have "\<exists>s'. array_members widen (FArray (map foreign_tree xs)) 0 (length xs) [] s
            = (Inr ([] @ drop 0 xs), s')"
  proof (rule array_loop)
    show "\<And>v s. v \<in> set xs \<Longrightarrow> wf_state s \<Longrightarrow> script s = [] \<Longrightarrow>
                 \<exists>s'. ffi_to_cpp widen (Some (foreign_tree v)) s = (Inr v, s')"
      by (rule IH)
    show "wf_state s"
      by (rule wf)
    show "script s = []"
      by (rule quiet)
    show "0 \<le> length xs"
      by simp
  qed
  then obtain s' where
    "array_members widen (FArray (map foreign_tree xs)) 0 (length xs) [] s = (Inr xs, s')"
    by auto
  then show ?case
    by (simp add: ffi_to_cpp.simps(2) gbln_array_len_def)
qed

subsection \<open>Serialising after the round trip\<close>

lemma to_string_quiet:
  assumes rep: "representable V" and wf: "wf_state s" and quiet: "script s = []"
  shows "fst (to_string compact pretty V True s) = Inr (c_str (compact (foreign_tree V)))"
proof -
  from cpp_to_ffi_quiet(1) [OF wf quiet rep] obtain s1 where
    conv: "cpp_to_ffi V s = (Inr (Some (next_addr s)), s1)" and q1: "script s1 = []"
    by blast
  from cpp_to_ffi_success(1) [OF wf conv]
  have st1: "store s1 = (store s)(next_addr s \<mapsto> ResValue (foreign_tree V))"
    by blast
  then have view: "value_at s1 (Some (next_addr s)) = Some (foreign_tree V)"
    by (simp add: value_at_def)
  from view q1 have "gbln_to_string compact (Some (next_addr s)) s1
      = (Some (next_addr s1),
         s1\<lparr>store := (store s1)(next_addr s1 \<mapsto> ResString (c_str (compact (foreign_tree V)))),
            next_addr := Suc (next_addr s1)\<rparr>)"
    by (simp add: gbln_to_string_def render_def next_reply_quiet alloc_def)
  with conv show ?thesis
    by (simp add: to_string_def ManagedValue_new_def ManagedString_new_def ManagedString_str_def
        string_at_def)
qed

lemma round_trip_quiet:
  assumes rep: "representable V" and wf: "wf_state s" and quiet: "script s = []"
  shows "\<exists>s2. round_trip widen V s = (Inr V, s2) \<and> wf_state s2 \<and> script s2 = []"
proof -
  from cpp_to_ffi_quiet(1) [OF wf quiet rep] obtain s1 where
    conv: "cpp_to_ffi V s = (Inr (Some (next_addr s)), s1)" and q1: "script s1 = []"
    by blast
  from cpp_to_ffi_success(1) [OF wf conv] have wf1: "wf_state s1"
    by simp
  from cpp_to_ffi_success(1) [OF wf conv]
  have st1: "store s1 = (store s)(next_addr s \<mapsto> ResValue (foreign_tree V))"
    by blast
  then have view: "value_at s1 (Some (next_addr s)) = Some (foreign_tree V)"
    by (simp add: value_at_def)
  from ffi_to_cpp_foreign_tree [OF wf1 q1 rep] obtain s2 where
    ret: "ffi_to_cpp widen (Some (foreign_tree V)) s1 = (Inr V, s2)"
    by blast
  from ffi_to_cpp_settled(1) [OF wf1 ret] q1 have "wf_state s2" "script s2 = []"
    by (simp_all add: settled_def)
  with conv view ret show ?thesis
    by (simp add: round_trip_def)
qed

text \<open>
  C1. The round trip, for the values the engine's C interface can carry.  Let every string
  and every key of \<open>V\<close> be free of zero bytes, every string pass the scan of
  \<open>create_optimal_string\<close> with at most 1024 characters, and the engine not fail on its
  own.  Then \<open>cpp_to_ffi\<close> followed by \<open>ffi_to_cpp\<close> returns \<open>V\<close> itself, and serialising the
  result in compact form succeeds with exactly the text that serialising \<open>V\<close> directly
  gives, whatever the engine's compact serialiser is.
\<close>

theorem round_trip_compact_text:
  assumes "representable V" "wf_state s" "script s = []"
  shows "fst (round_trip widen V s) = Inr V
       \<and> fst (round_trip_text compact widen V s) = Inr (c_str (compact (foreign_tree V)))
       \<and> fst (to_string compact pretty V True s) = Inr (c_str (compact (foreign_tree V)))"
proof -
  from round_trip_quiet [OF assms] obtain s2 where
    rt: "round_trip widen V s = (Inr V, s2)" and s2: "wf_state s2" "script s2 = []"
    by blast
  from rt have "fst (round_trip_text compact widen V s) = fst (to_string compact compact V True s2)"
    by (simp add: round_trip_text_def)
  with rt to_string_quiet [OF assms(1) s2] to_string_quiet [OF assms] show ?thesis
    by simp
qed

theorem round_trip_compact_text_witness:
  "representable (VObject [(''age'', VInt 25), (''name'', VString ''Alice'')])
   \<and> wf_state init_state \<and> script init_state = []
   \<and> fst (round_trip zero_widen (VObject [(''age'', VInt 25), (''name'', VString ''Alice'')]) init_state)
       = Inr (VObject [(''age'', VInt 25), (''name'', VString ''Alice'')])
   \<and> fst (round_trip_text compact_text zero_widen
            (VObject [(''age'', VInt 25), (''name'', VString ''Alice'')]) init_state)
       = Inr ''age<u8>(25)name<s8>(Alice)''
   \<and> fst (to_string compact_text compact_text
            (VObject [(''age'', VInt 25), (''name'', VString ''Alice'')]) True init_state)
       = Inr ''age<u8>(25)name<s8>(Alice)''"
proof -
  let ?V = "VObject [(''age'', VInt 25), (''name'', VString ''Alice'')]"
  have rep: "representable ?V"
    by code_simp
  have wf: "wf_state init_state"
    by (simp add: wf_state_def init_state_def)
  have quiet: "script init_state = []"
    by (simp add: init_state_def)
  have rendered: "c_str (compact_text (foreign_tree ?V)) = ''age<u8>(25)name<s8>(Alice)''"
    by code_simp
  from round_trip_compact_text [OF rep wf quiet, of zero_widen compact_text compact_text]
    rep wf quiet rendered
  show ?thesis
    by simp
qed

text \<open>
  Without the restriction the texts differ.  The string \<open>Al\<close>, zero byte, \<open>ice\<close> has six
  characters by the scan and gets the capacity 8, while \<open>c_str()\<close> hands over \<open>Al\<close>; the
  round trip returns \<open>Al\<close>, which gets the capacity 2.
\<close>

theorem round_trip_zero_byte_counterexample:
  "valid_value (VObject [(''name'', VString [CHR ''A'', CHR ''l'', CHR 0x00, CHR ''i'', CHR ''c'', CHR ''e''])])
   \<and> fst (to_string compact_text compact_text
          (VObject [(''name'', VString [CHR ''A'', CHR ''l'', CHR 0x00, CHR ''i'', CHR ''c'', CHR ''e''])])
          True init_state)
       = Inr ''name<s8>(Al)''
   \<and> fst (round_trip_text compact_text zero_widen
          (VObject [(''name'', VString [CHR ''A'', CHR ''l'', CHR 0x00, CHR ''i'', CHR ''c'', CHR ''e''])])
          init_state)
       = Inr ''name<s2>(Al)''"
  by code_simp

end
